theory Spec2Isabelle
  imports Complex_Main "HOL-Library.AList" "HOL-Library.Multiset"
begin

section \<open>Schema types (types/schema.ts)\<close>

text \<open>
  Only the members that the modelled functions read are kept.  An optional member
  (\<^verbatim>\<open>foreignKeyField?: string\<close>, \<^verbatim>\<open>relation?: RelationInfo\<close>) is an \<open>option\<close>.
  The member \<^verbatim>\<open>name\<close> of a field is \<open>fieldName\<close> here and that of a table \<open>tableName\<close>, since
  one record cannot share a member name with another; \<^verbatim>\<open>fields\<close> is \<open>tableFields\<close>.
\<close>

record RelationInfo =
  relatedTable :: string
  foreignKeyField :: "string option"

record FieldDefinition =
  fieldName :: string
  isId :: bool
  relation :: "RelationInfo option"

record TableDefinition =
  tableName :: string
  tableFields :: "FieldDefinition list"

record DependencyNode =
  table :: string
  dependencies :: "string list"
  dependents :: "string list"

text \<open>
  A JavaScript \<^verbatim>\<open>Map<string, V>\<close> is an association list in insertion order:
  \<^verbatim>\<open>get\<close> is \<^const>\<open>map_of\<close>, \<^verbatim>\<open>set\<close> is \<^const>\<open>AList.update\<close> (an existing key keeps
  its position, a new key goes to the end) and \<^verbatim>\<open>forEach\<close> walks the list.
\<close>

type_synonym graph = "(string \<times> DependencyNode) list"

text \<open>
  A \<^verbatim>\<open>Set<string>\<close> is a duplicate-free list in insertion order; \<^verbatim>\<open>add\<close> appends a
  new member, \<^verbatim>\<open>size\<close> is the length.
\<close>

definition set_add :: "string list \<Rightarrow> string \<Rightarrow> string list" where
  "set_add s x = (if x \<in> set s then s else s @ [x])"

text \<open>Truthiness of an optional string: \<^verbatim>\<open>undefined\<close> and the empty string are falsy.\<close>

definition truthy_str :: "string option \<Rightarrow> bool" where
  "truthy_str s = (case s of None \<Rightarrow> False | Some x \<Rightarrow> x \<noteq> [])"

section \<open>Dependency graph (engine/topo-sort.ts)\<close>

definition init_node :: "graph \<Rightarrow> TableDefinition \<Rightarrow> graph" where
  "init_node g t =
     AList.update (tableName t)
       \<lparr>table = tableName t, dependencies = [], dependents = []\<rparr> g"

text \<open>
  The body of \<^verbatim>\<open>table.fields.forEach\<close>.  \<^verbatim>\<open>node\<close> is the object stored in the map
  under the table's name, so pushing to \<^verbatim>\<open>node.dependencies\<close> updates that entry.  Every
  table has its node once the first loop has run, which is what \<^verbatim>\<open>graph.get(table.name)!\<close>
  relies on; the branch for a missing node is never taken.
\<close>

definition add_edge :: "string \<Rightarrow> graph \<Rightarrow> FieldDefinition \<Rightarrow> graph" where
  "add_edge tname g field =
     (case relation field of
        None \<Rightarrow> g
      | Some rel \<Rightarrow>
          if \<not> truthy_str (foreignKeyField rel) then g
          else if relatedTable rel = tname then g
          else
            let g1 = (case map_of g tname of
                        None \<Rightarrow> g
                      | Some node \<Rightarrow>
                          if relatedTable rel \<in> set (dependencies node) then g
                          else AList.update tname
                                 (node\<lparr>dependencies := dependencies node @ [relatedTable rel]\<rparr>) g)
            in (case map_of g1 (relatedTable rel) of
                  None \<Rightarrow> g1
                | Some relatedNode \<Rightarrow>
                    if tname \<in> set (dependents relatedNode) then g1
                    else AList.update (relatedTable rel)
                           (relatedNode\<lparr>dependents := dependents relatedNode @ [tname]\<rparr>) g1))"

definition add_table_edges :: "graph \<Rightarrow> TableDefinition \<Rightarrow> graph" where
  "add_table_edges g t = foldl (add_edge (tableName t)) g (tableFields t)"

definition buildDependencyGraph :: "TableDefinition list \<Rightarrow> graph" where
  "buildDependencyGraph tables = foldl add_table_edges (foldl init_node [] tables) tables"

section \<open>Topological sort (engine/topo-sort.ts)\<close>

text \<open>\<^verbatim>\<open>graph.get(a)?.dependencies || []\<close>\<close>

definition deps_of :: "graph \<Rightarrow> string \<Rightarrow> string list" where
  "deps_of g a = (case map_of g a of None \<Rightarrow> [] | Some n \<Rightarrow> dependencies n)"

type_synonym degrees = "(string \<times> int) list"

text \<open>\<^verbatim>\<open>inDegree.get(t) || 0\<close>\<close>

definition degree_of :: "degrees \<Rightarrow> string \<Rightarrow> int" where
  "degree_of inDegree t = (case map_of inDegree t of None \<Rightarrow> 0 | Some d \<Rightarrow> d)"

text \<open>The body of \<^verbatim>\<open>dependents.forEach\<close> inside the queue loop.\<close>

definition reduce_dependent :: "degrees \<times> string list \<Rightarrow> string \<Rightarrow> degrees \<times> string list" where
  "reduce_dependent st dep =
     (let newDegree = degree_of (fst st) dep - 1
      in (AList.update dep newDegree (fst st),
          if newDegree = 0 then snd st @ [dep] else snd st))"

text \<open>Number of keys whose stored in-degree is positive.\<close>

definition positive_count :: "degrees \<Rightarrow> nat" where
  "positive_count inDegree = card {t. \<exists>d. map_of inDegree t = Some d \<and> 0 < d}"

lemma positive_set_finite: "finite {t. \<exists>d. map_of m t = Some d \<and> 0 < (d::int)}"
proof (rule finite_subset)
  show "{t. \<exists>d. map_of m t = Some d \<and> 0 < d} \<subseteq> dom (map_of m)" by auto
  show "finite (dom (map_of m))" by (rule finite_dom_map_of)
qed

lemma reduce_dependent_measure:
  "positive_count (fst (reduce_dependent st d)) + length (snd (reduce_dependent st d))
     = positive_count (fst st) + length (snd st)"
proof -
  let ?m = "fst st"
  let ?P = "\<lambda>m. {t. \<exists>d. map_of m t = Some d \<and> 0 < (d::int)}"
  let ?n = "degree_of ?m d - 1"
  show ?thesis
  proof (cases "?n = 0")
    case True
    then have one: "map_of ?m d = Some 1"
      by (auto simp: degree_of_def split: option.splits)
    have eq: "?P (AList.update d ?n ?m) = ?P ?m - {d}"
      using True one by (auto simp: update_conv')
    have mem: "d \<in> ?P ?m" using one by simp
    have "Suc (card (?P ?m - {d})) = card (?P ?m)"
      by (rule card_Suc_Diff1[OF positive_set_finite mem])
    then have "positive_count (AList.update d ?n ?m) + 1 = positive_count ?m"
      unfolding positive_count_def eq by simp
    then show ?thesis using True by (simp add: reduce_dependent_def Let_def)
  next
    case False
    have "?P (AList.update d ?n ?m) = ?P ?m"
      using False by (auto simp: update_conv' degree_of_def split: option.splits if_splits)
    then show ?thesis using False
      by (simp add: reduce_dependent_def Let_def positive_count_def)
  qed
qed

lemma foldl_reduce_measure:
  "positive_count (fst (foldl reduce_dependent st ds)) + length (snd (foldl reduce_dependent st ds))
     = positive_count (fst st) + length (snd st)"
  by (induction ds arbitrary: st) (simp_all add: reduce_dependent_measure)

text \<open>\<^verbatim>\<open>adjList.get(current) || []\<close>\<close>

definition adj_of :: "(string \<times> string list) list \<Rightarrow> string \<Rightarrow> string list" where
  "adj_of adjList t = (case map_of adjList t of None \<Rightarrow> [] | Some ds \<Rightarrow> ds)"

text \<open>
  The \<^verbatim>\<open>while (queue.length > 0)\<close> loop; the result is the order built so far together
  with the final \<^verbatim>\<open>inDegree\<close> map.
\<close>

function process_queue ::
  "(string \<times> string list) list \<Rightarrow> degrees \<Rightarrow> string list \<Rightarrow> string list
     \<Rightarrow> string list \<times> degrees" where
  "process_queue adjList inDegree [] ord = (ord, inDegree)"
| "process_queue adjList inDegree (current # queue) ord =
     process_queue adjList
       (fst (foldl reduce_dependent (inDegree, queue) (adj_of adjList current)))
       (snd (foldl reduce_dependent (inDegree, queue) (adj_of adjList current)))
       (ord @ [current])"
  by pat_completeness auto
termination
proof (relation "measure (\<lambda>(adjList, inDegree, queue, ord). positive_count inDegree + length queue)")
  show "wf (measure (\<lambda>(adjList, inDegree, queue, ord). positive_count inDegree + length queue))"
    by simp
next
  fix adjList :: "(string \<times> string list) list" and inDegree :: degrees
    and current :: string and queue ord :: "string list"
  show "((adjList,
          fst (foldl reduce_dependent (inDegree, queue) (adj_of adjList current)),
          snd (foldl reduce_dependent (inDegree, queue) (adj_of adjList current)),
          ord @ [current]),
         (adjList, inDegree, current # queue, ord))
        \<in> measure (\<lambda>(adjList, inDegree, queue, ord). positive_count inDegree + length queue)"
    using foldl_reduce_measure[of "(inDegree, queue)" "adj_of adjList current"] by simp
qed

text \<open>\<^verbatim>\<open>graph.get(a)?.dependencies.length || 0\<close>\<close>

definition dep_count :: "graph \<Rightarrow> string \<Rightarrow> nat" where
  "dep_count g a = (case map_of g a of None \<Rightarrow> 0 | Some node \<Rightarrow> length (dependencies node))"

definition initial_degrees :: "graph \<Rightarrow> degrees" where
  "initial_degrees g =
     foldl (\<lambda>m (tname, node). AList.update tname (int (length (dependencies node))) m) [] g"

definition initial_adj :: "graph \<Rightarrow> (string \<times> string list) list" where
  "initial_adj g = foldl (\<lambda>m (tname, node). AList.update tname (dependents node) m) [] g"

text \<open>The nodes seeded into the queue: in-degree exactly zero, in map order.\<close>

definition initial_queue :: "degrees \<Rightarrow> string list" where
  "initial_queue inDegree = map fst (filter (\<lambda>(t, d). d = 0) inDegree)"

definition kahn :: "graph \<Rightarrow> string list \<times> degrees" where
  "kahn g = process_queue (initial_adj g) (initial_degrees g)
              (initial_queue (initial_degrees g)) []"

text \<open>\<^verbatim>\<open>remaining\<close> before it is sorted: the keys whose final in-degree is positive.\<close>

definition remaining_nodes :: "graph \<Rightarrow> string list" where
  "remaining_nodes g = map fst (filter (\<lambda>(t, d). 0 < d) (snd (kahn g)))"

subsection \<open>detectCycle\<close>

text \<open>
  The state that the closure \<^verbatim>\<open>dfs\<close> shares with \<^verbatim>\<open>detectCycle\<close>: the two sets and the
  \<^verbatim>\<open>cycle\<close> array.
\<close>

record dfs_state =
  visited :: "string list"
  recStack :: "string list"
  cycle :: "string list"

text \<open>The first two statements of \<^verbatim>\<open>dfs\<close>: \<^verbatim>\<open>visited.add(node); recStack.add(node)\<close>.\<close>

definition enter :: "string \<Rightarrow> dfs_state \<Rightarrow> dfs_state" where
  "enter node st =
     st\<lparr>visited := set_add (visited st) node, recStack := set_add (recStack st) node\<rparr>"

text \<open>
  The \<^verbatim>\<open>for (const dep of dependencies)\<close> loop of \<^verbatim>\<open>dfs(node)\<close> on the dependencies still
  to be looked at, with what follows the loop.  The call \<^verbatim>\<open>dfs(dep)\<close> is the loop of \<open>dep\<close>
  over all its dependencies, entered after \<open>dep\<close> has been added to both sets.  The
  first component of the result is the returned boolean.
\<close>

function dfs_deps :: "graph \<Rightarrow> string \<Rightarrow> string list \<Rightarrow> dfs_state \<Rightarrow> bool \<times> dfs_state" where
  "dfs_deps g node [] st = (False, st\<lparr>recStack := removeAll node (recStack st)\<rparr>)"
| "dfs_deps g node (dep # rest) st =
     (if dep \<notin> set (visited st) then
        (let r = dfs_deps g dep (deps_of g dep) (enter dep st)
         in if fst r then (True, (snd r)\<lparr>cycle := node # cycle (snd r)\<rparr>)
            else dfs_deps g node rest (snd r))
      else if dep \<in> set (recStack st) then
        (True, st\<lparr>cycle := node # (cycle st @ [dep])\<rparr>)
      else dfs_deps g node rest st)"
  by pat_completeness auto

text \<open>
  Termination: every nested call marks a name that was not visited, and the names are
  those of the dependency lists of the graph and of the list at hand.
\<close>

definition all_deps :: "graph \<Rightarrow> string set" where
  "all_deps g = (\<Union>n \<in> snd ` set g. set (dependencies n))"

lemma deps_of_subset: "set (deps_of g a) \<subseteq> all_deps g"
proof (cases "map_of g a")
  case None
  then show ?thesis by (simp add: deps_of_def)
next
  case (Some n)
  then have "n \<in> snd ` set g" by (force dest: map_of_SomeD)
  then show ?thesis using Some by (auto simp: deps_of_def all_deps_def)
qed

lemma finite_all_deps: "finite (all_deps g)"
  by (simp add: all_deps_def)

lemma dfs_deps_visited_grows:
  "dfs_deps_dom (g, node, ds, st) \<Longrightarrow>
   set (visited st) \<subseteq> set (visited (snd (dfs_deps g node ds st)))"
proof (induction g node ds st rule: dfs_deps.pinduct)
  case (1 g node st)
  then show ?case by (simp add: dfs_deps.psimps)
next
  case (2 g node dep rest st)
  show ?case
  proof (cases "dep \<notin> set (visited st)")
    case True
    let ?r = "dfs_deps g dep (deps_of g dep) (enter dep st)"
    have inner: "set (visited (enter dep st)) \<subseteq> set (visited (snd ?r))"
      using "2.IH"(1)[OF True] .
    have st: "set (visited st) \<subseteq> set (visited (enter dep st))"
      by (auto simp: enter_def set_add_def)
    show ?thesis
    proof (cases "fst ?r")
      case f: True
      then show ?thesis using True inner st "2.hyps"
        by (auto simp: dfs_deps.psimps Let_def)
    next
      case f: False
      have "set (visited (snd ?r)) \<subseteq> set (visited (snd (dfs_deps g node rest (snd ?r))))"
        using "2.IH"(2)[OF True refl f] .
      then show ?thesis using True f inner st "2.hyps"
        by (auto simp: dfs_deps.psimps Let_def)
    qed
  next
    case False
    show ?thesis
    proof (cases "dep \<in> set (recStack st)")
      case True
      then show ?thesis using False "2.hyps" by (simp add: dfs_deps.psimps)
    next
      case nr: False
      have "set (visited st) \<subseteq> set (visited (snd (dfs_deps g node rest st)))"
        using "2.IH"(3) False nr by simp
      then show ?thesis using False nr "2.hyps" by (simp add: dfs_deps.psimps)
    qed
  qed
qed

definition dfs_measure :: "graph \<times> string \<times> string list \<times> dfs_state \<Rightarrow> nat" where
  "dfs_measure = (\<lambda>(g, node, ds, st). card ((all_deps g \<union> set ds) - set (visited st)))"

termination dfs_deps
proof (relation "measures [dfs_measure, \<lambda>(g, node, ds, st). length ds]")
  show "wf (measures [dfs_measure, \<lambda>(g, node, ds, st). length ds])" by simp
next
  fix g :: graph and node dep :: string and rest :: "string list" and st :: dfs_state
  assume nv: "dep \<notin> set (visited st)"
  have "(all_deps g \<union> set (deps_of g dep)) - set (visited (enter dep st))
          \<subset> (all_deps g \<union> set (dep # rest)) - set (visited st)"
    using nv deps_of_subset[of g dep] by (auto simp: enter_def set_add_def)
  then have "dfs_measure (g, dep, deps_of g dep, enter dep st)
               < dfs_measure (g, node, dep # rest, st)"
    unfolding dfs_measure_def using finite_all_deps[of g]
    by (simp add: psubset_card_mono)
  then show "((g, dep, deps_of g dep, enter dep st), (g, node, dep # rest, st))
               \<in> measures [dfs_measure, \<lambda>(g, node, ds, st). length ds]"
    by simp
next
  fix g :: graph and node dep :: string and rest :: "string list" and st :: dfs_state
    and r :: "bool \<times> dfs_state"
  assume nv: "dep \<notin> set (visited st)"
    and r: "r = dfs_deps g dep (deps_of g dep) (enter dep st)"
    and nf: "\<not> fst r"
    and dom: "dfs_deps_dom (g, dep, deps_of g dep, enter dep st)"
  have "set (visited st) \<subseteq> set (visited (enter dep st))"
    by (auto simp: enter_def set_add_def)
  with dfs_deps_visited_grows[OF dom] have "set (visited st) \<subseteq> set (visited (snd r))"
    unfolding r by blast
  then have "(all_deps g \<union> set rest) - set (visited (snd r))
               \<subseteq> (all_deps g \<union> set (dep # rest)) - set (visited st)"
    by auto
  then have "dfs_measure (g, node, rest, snd r) \<le> dfs_measure (g, node, dep # rest, st)"
    unfolding dfs_measure_def using finite_all_deps[of g]
    by (simp add: card_mono)
  then show "((g, node, rest, snd r), (g, node, dep # rest, st))
               \<in> measures [dfs_measure, \<lambda>(g, node, ds, st). length ds]"
    by auto
next
  fix g :: graph and node dep :: string and rest :: "string list" and st :: dfs_state
  assume "\<not> dep \<notin> set (visited st)" "dep \<notin> set (recStack st)"
  have "(all_deps g \<union> set rest) - set (visited st)
               \<subseteq> (all_deps g \<union> set (dep # rest)) - set (visited st)"
    by auto
  then have "dfs_measure (g, node, rest, st) \<le> dfs_measure (g, node, dep # rest, st)"
    unfolding dfs_measure_def using finite_all_deps[of g]
    by (simp add: card_mono)
  then show "((g, node, rest, st), (g, node, dep # rest, st))
               \<in> measures [dfs_measure, \<lambda>(g, node, ds, st). length ds]"
    by auto
qed


definition dfs :: "graph \<Rightarrow> string \<Rightarrow> dfs_state \<Rightarrow> bool \<times> dfs_state" where
  "dfs g node st = dfs_deps g node (deps_of g node) (enter node st)"

text \<open>The loop over \<^verbatim>\<open>startNodes\<close>, which stops at the first start node whose search succeeds.\<close>

fun detect_loop :: "graph \<Rightarrow> string list \<Rightarrow> dfs_state \<Rightarrow> dfs_state" where
  "detect_loop g [] st = st"
| "detect_loop g (startNode # rest) st =
     (if startNode \<notin> set (visited st) then
        (let r = dfs g startNode st
         in if fst r then snd r else detect_loop g rest (snd r))
      else detect_loop g rest st)"

definition detectCycle :: "graph \<Rightarrow> string list \<Rightarrow> string list" where
  "detectCycle g startNodes =
     cycle (detect_loop g startNodes \<lparr>visited = [], recStack = [], cycle = []\<rparr>)"

subsection \<open>topologicalSort\<close>

record TopologicalOrder =
  order :: "string list"
  cycles :: "string list list"

text \<open>
  \<^verbatim>\<open>Array.prototype.sort\<close> is stable, as \<^const>\<open>sort_key\<close> is; \<^verbatim>\<open>detectCycle\<close> is called
  before the sort and only reads \<^verbatim>\<open>remaining\<close>.
\<close>

definition topologicalSort :: "graph \<Rightarrow> TopologicalOrder" where
  "topologicalSort g =
     (let remaining = remaining_nodes g
      in if 0 < length remaining
         then \<lparr>order = fst (kahn g) @ sort_key (dep_count g) remaining,
               cycles = [detectCycle g remaining]\<rparr>
         else \<lparr>order = fst (kahn g), cycles = []\<rparr>)"

lemma order_topologicalSort:
  "order (topologicalSort g) =
     (if remaining_nodes g \<noteq> [] then fst (kahn g) @ sort_key (dep_count g) (remaining_nodes g)
      else fst (kahn g))"
  by (simp add: topologicalSort_def Let_def)

section \<open>Level grouping (engine/parallel.ts)\<close>

text \<open>The test that puts a table into \<^verbatim>\<open>currentLevel\<close>.\<close>

definition level_ready :: "graph \<Rightarrow> string list \<Rightarrow> TableDefinition \<Rightarrow> bool" where
  "level_ready g processed t =
     (tableName t \<notin> set processed \<and>
      (case map_of g (tableName t) of
         None \<Rightarrow> False
       | Some node \<Rightarrow> \<forall>dep \<in> set (dependencies node). dep \<in> set processed))"

lemma set_foldl_set_add: "set (foldl set_add s xs) = set s \<union> set xs"
  by (induction xs arbitrary: s) (auto simp: set_add_def)

function level_loop ::
  "TableDefinition list \<Rightarrow> graph \<Rightarrow> string list \<Rightarrow> string list list \<Rightarrow> string list list" where
  "level_loop tables g processed levels =
     (if length processed < length tables then
        (let currentLevel = map tableName (filter (level_ready g processed) tables)
         in if currentLevel = [] then
              (let remaining = map tableName (filter (\<lambda>t. tableName t \<notin> set processed) tables)
               in if remaining \<noteq> [] then levels @ [remaining] else levels)
            else level_loop tables g (foldl set_add processed currentLevel)
                   (levels @ [currentLevel]))
      else levels)"
  by pat_completeness auto
termination
proof (relation "measure (\<lambda>(tables, g, processed, levels).
                   card (set (map tableName tables) - set processed))")
  show "wf (measure (\<lambda>(tables, g, processed, levels).
                   card (set (map tableName tables) - set processed)))"
    by simp
next
  fix tables :: "TableDefinition list" and g :: graph and processed :: "string list"
    and levels :: "string list list" and currentLevel :: "string list"
  assume cur: "currentLevel = map tableName (filter (level_ready g processed) tables)"
    and ne: "currentLevel \<noteq> []"
  from ne obtain x where x: "x \<in> set currentLevel" by (cases currentLevel) auto
  have sub: "set currentLevel \<subseteq> set (map tableName tables) - set processed"
    unfolding cur by (auto simp: level_ready_def)
  have "set (map tableName tables) - (set processed \<union> set currentLevel)
          \<subset> set (map tableName tables) - set processed"
    using x sub by auto
  then have "card (set (map tableName tables) - (set processed \<union> set currentLevel))
               < card (set (map tableName tables) - set processed)"
    by (intro psubset_card_mono) auto
  then show "((tables, g, foldl set_add processed currentLevel, levels @ [currentLevel]),
              (tables, g, processed, levels))
             \<in> measure (\<lambda>(tables, g, processed, levels).
                   card (set (map tableName tables) - set processed))"
    by (simp add: set_foldl_set_add)
qed

declare level_loop.simps [simp del]

definition groupTablesByLevel :: "TableDefinition list \<Rightarrow> string list list" where
  "groupTablesByLevel tables = level_loop tables (buildDependencyGraph tables) [] []"

section \<open>JavaScript values and rows\<close>

text \<open>
  The values a row member or an identifier can hold: the primitives, and \<open>Ref\<close> for a
  reference to an object, an array or a date.  Two references are equal exactly when
  they denote the same object, which is how \<^verbatim>\<open>===\<close> and \<^verbatim>\<open>Array.prototype.includes\<close>
  compare, so HOL equality on \<open>jsval\<close> is the comparison the code makes.  Numbers are
  integers here.
\<close>

datatype jsval = Undefined | Null | Bool bool | Num int | Str string | Ref nat

text \<open>
  A \<^verbatim>\<open>GeneratedRow\<close> is an object with string keys: an association list in the order in
  which \<^verbatim>\<open>Object.keys\<close> lists the keys.  Reading a missing member gives \<^verbatim>\<open>undefined\<close>;
  assignment is \<^const>\<open>AList.update\<close>.
\<close>

type_synonym row = "(string \<times> jsval) list"

definition row_get :: "row \<Rightarrow> string \<Rightarrow> jsval" where
  "row_get r k = (case map_of r k of None \<Rightarrow> Undefined | Some v \<Rightarrow> v)"

text \<open>\<^verbatim>\<open>xs[i]\<close> on an array: \<^verbatim>\<open>undefined\<close> outside the bounds.\<close>

definition js_index :: "jsval list \<Rightarrow> int \<Rightarrow> jsval" where
  "js_index xs i = (if 0 \<le> i \<and> i < int (length xs) then xs ! nat i else Undefined)"

section \<open>Foreign-key transformation (engine/transformer.ts)\<close>

subsection \<open>The placeholder pattern\<close>

text \<open>
  \<^verbatim>\<open>/\{\{(\w+)[_.](\d+)\}\}/\<close>: \<^verbatim>\<open>\w\<close> is a letter, a digit or the underscore, \<^verbatim>\<open>\d\<close> a
  digit.  Both \<^verbatim>\<open>+\<close> are greedy: the longest run is tried first and shorter ones
  after it, and the search takes the leftmost position at which some split matches.
\<close>

definition is_digit :: "char \<Rightarrow> bool" where
  "is_digit c = (c \<in> set ''0123456789'')"

definition is_word :: "char \<Rightarrow> bool" where
  "is_word c =
     (c \<in> set ''abcdefghijklmnopqrstuvwxyzABCDEFGHIJKLMNOPQRSTUVWXYZ0123456789_'')"

text \<open>Candidate lengths of a greedy \<^verbatim>\<open>+\<close> over a run of \<open>k\<close> characters: \<open>k, k - 1, \<dots>, 1\<close>.\<close>

definition greedy_lengths :: "nat \<Rightarrow> nat list" where
  "greedy_lengths k = rev [1..<Suc k]"

text \<open>\<^verbatim>\<open>(\d+)\}\}\<close> at the start of \<open>s\<close>: the captured digits.\<close>

definition match_digits :: "string \<Rightarrow> string option" where
  "match_digits s =
     map_option (\<lambda>m. take m s)
       (List.find (\<lambda>m. take 2 (drop m s) = ''}}'')
          (greedy_lengths (length (takeWhile is_digit s))))"

text \<open>\<^verbatim>\<open>(\w+)[_.](\d+)\}\}\<close> at the start of \<open>s\<close>: both captures.\<close>

definition match_word :: "string \<Rightarrow> (string \<times> string) option" where
  "match_word s =
     (case List.find
             (\<lambda>n. n < length s \<and> (s ! n = CHR ''_'' \<or> s ! n = CHR ''.'')
                    \<and> match_digits (drop (Suc n) s) \<noteq> None)
             (greedy_lengths (length (takeWhile is_word s))) of
        None \<Rightarrow> None
      | Some n \<Rightarrow>
          (case match_digits (drop (Suc n) s) of
             None \<Rightarrow> None
           | Some ds \<Rightarrow> Some (take n s, ds)))"

definition match_here :: "string \<Rightarrow> (string \<times> string) option" where
  "match_here s = (if take 2 s = ''{{'' then match_word (drop 2 s) else None)"

fun placeholder_match :: "string \<Rightarrow> (string \<times> string) option" where
  "placeholder_match [] = None"
| "placeholder_match (c # cs) =
     (case match_here (c # cs) of
        Some m \<Rightarrow> Some m
      | None \<Rightarrow> placeholder_match cs)"

text \<open>\<^verbatim>\<open>value.includes('{{')\<close>\<close>

fun includes_open :: "string \<Rightarrow> bool" where
  "includes_open (a # b # cs) = ((a = CHR ''{'' \<and> b = CHR ''{'') \<or> includes_open (b # cs))"
| "includes_open _ = False"

text \<open>
  \<^verbatim>\<open>parseInt(indexStr, 10)\<close> on a non-empty string of digits.  The value is exact here;
  JavaScript rounds it above \<open>2\<^sup>5\<^sup>3\<close>, far beyond the length of any array.
\<close>

definition digit_value :: "char \<Rightarrow> nat" where
  "digit_value c = of_char c - 48"

definition parseInt :: "string \<Rightarrow> nat" where
  "parseInt ds = foldl (\<lambda>n c. 10 * n + digit_value c) 0 ds"

subsection \<open>transformForeignKeys\<close>

text \<open>
  \<^verbatim>\<open>idMappings\<close> is a \<^verbatim>\<open>Record<string, any[]>\<close>, a partial map from table names to
  identifier lists.  The first half of the callback: the identifier a placeholder
  resolves to, if it does.
\<close>

definition resolve_placeholder :: "(string \<rightharpoonup> jsval list) \<Rightarrow> jsval \<Rightarrow> jsval option" where
  "resolve_placeholder idMappings v =
     (case v of
        Str s \<Rightarrow>
          if includes_open s then
            (case placeholder_match s of
               None \<Rightarrow> None
             | Some (tname, indexStr) \<Rightarrow>
                 let index = int (parseInt indexStr) - 1
                 in (case idMappings tname of
                       None \<Rightarrow> None
                     | Some availableIds \<Rightarrow>
                         if js_index availableIds index \<noteq> Undefined
                         then Some (js_index availableIds index) else None))
          else None
      | _ \<Rightarrow> None)"

text \<open>
  The body of \<^verbatim>\<open>tableSchema.fields.forEach\<close>, on the state (\<^verbatim>\<open>transformedRow\<close>, number
  of calls of \<^verbatim>\<open>Math.random\<close> made so far).  \<open>rnd k\<close> is the number that call \<open>k\<close> of
  \<^verbatim>\<open>Math.random()\<close> returns.  \<^verbatim>\<open>value\<close> is read once, before the placeholder is
  substituted, and the membership test of the second half uses that same \<^verbatim>\<open>value\<close>.
\<close>

definition transform_field ::
  "(nat \<Rightarrow> real) \<Rightarrow> (string \<rightharpoonup> jsval list) \<Rightarrow> row \<times> nat \<Rightarrow> FieldDefinition \<Rightarrow> row \<times> nat" where
  "transform_field rnd idMappings st field =
     (case relation field of
        None \<Rightarrow> st
      | Some rel \<Rightarrow>
          if \<not> truthy_str (foreignKeyField rel) then st
          else
            let fkf = the (foreignKeyField rel);
                v = row_get (fst st) fkf
            in if v = Null \<or> v = Undefined then st
               else
                 let row1 = (case resolve_placeholder idMappings v of
                               None \<Rightarrow> fst st
                             | Some newv \<Rightarrow> AList.update fkf newv (fst st))
                 in (case idMappings (relatedTable rel) of
                       None \<Rightarrow> (row1, snd st)
                     | Some availableIds \<Rightarrow>
                         if 0 < length availableIds \<and> v \<notin> set availableIds
                         then (AList.update fkf
                                 (js_index availableIds
                                    \<lfloor>rnd (snd st) * real (length availableIds)\<rfloor>) row1,
                               Suc (snd st))
                         else (row1, snd st)))"

text \<open>The callback of \<^verbatim>\<open>rows.map\<close>: the contents of the copy after all fields ran.\<close>

definition transform_row ::
  "(nat \<Rightarrow> real) \<Rightarrow> TableDefinition \<Rightarrow> (string \<rightharpoonup> jsval list) \<Rightarrow> row \<times> nat \<Rightarrow> row \<times> nat" where
  "transform_row rnd tableSchema idMappings st =
     foldl (transform_field rnd idMappings) st (tableFields tableSchema)"

text \<open>
  \<^verbatim>\<open>transformForeignKeys\<close> on the contents of the rows: the output rows in order and the
  number of random draws consumed, starting from draw \<open>k\<close>.
\<close>

fun transformForeignKeys ::
  "(nat \<Rightarrow> real) \<Rightarrow> nat \<Rightarrow> row list \<Rightarrow> TableDefinition \<Rightarrow> (string \<rightharpoonup> jsval list)
     \<Rightarrow> row list \<times> nat" where
  "transformForeignKeys rnd k [] tableSchema idMappings = ([], k)"
| "transformForeignKeys rnd k (r # rs) tableSchema idMappings =
     (let st = transform_row rnd tableSchema idMappings (r, k);
          rest = transformForeignKeys rnd (snd st) rs tableSchema idMappings
      in (fst st # fst rest, snd rest))"

text \<open>
  The same call on a store of objects: a store is the list of the objects allocated so
  far, an address is an index into it, and \<^verbatim>\<open>rows\<close> is a list of addresses.  Each
  \<^verbatim>\<open>{ ...row }\<close> allocates a new object at the end of the store; the writes of the
  callback go to that object.  The result is the new store and the addresses of the
  output rows.
\<close>

definition transformForeignKeys_store ::
  "(nat \<Rightarrow> real) \<Rightarrow> nat \<Rightarrow> row list \<Rightarrow> nat list \<Rightarrow> TableDefinition
     \<Rightarrow> (string \<rightharpoonup> jsval list) \<Rightarrow> row list \<times> nat list" where
  "transformForeignKeys_store rnd k store rows tableSchema idMappings =
     (let out = fst (transformForeignKeys rnd k (map (\<lambda>a. store ! a) rows)
                       tableSchema idMappings)
      in (store @ out, [length store ..< length store + length out]))"

section \<open>Batched insertion (engine/inserter.ts)\<close>

text \<open>
  The statements sent over the connection.  The text and the parameter list of the
  \<^verbatim>\<open>INSERT ... ON CONFLICT DO NOTHING RETURNING *\<close> statement are a function of the table
  name and the batch, so the statement is represented by these two.
\<close>

datatype command = BEGIN | INSERT string "row list" | COMMIT | ROLLBACK

record QueryResult =
  rowCount :: "nat option"
  rows :: "row list"

text \<open>
  The messages pushed to \<^verbatim>\<open>errors\<close>, by template: the conflict note of \<^verbatim>\<open>insertBatch\<close>
  with its count, and \<^verbatim>\<open>Batch failed: ...\<close> of \<^verbatim>\<open>insertData\<close> with the error caught.
\<close>

datatype message = RowsSkipped int | BatchFailed string

record InsertResult =
  inserted :: int
  failed :: int
  errors :: "message list"
  ids :: "jsval list"

text \<open>
  The database is a parameter: \<open>client db c\<close> is what \<^verbatim>\<open>client.query\<close> does with statement
  \<open>c\<close> in database state \<open>db\<close>: it either throws (\<open>Inl\<close>, with the error's message) or
  returns a result, and leaves a new state.  The connection state is the database state
  together with the log of the statements issued on the connection so far.
\<close>

type_synonym 'db client = "'db \<Rightarrow> command \<Rightarrow> (string + QueryResult) \<times> 'db"

definition query :: "'db client \<Rightarrow> 'db \<times> command list \<Rightarrow> command
                       \<Rightarrow> (string + QueryResult) \<times> ('db \<times> command list)" where
  "query client st c = (fst (client (fst st) c), (snd (client (fst st) c), snd st @ [c]))"

definition empty_result :: InsertResult where
  "empty_result = \<lparr>inserted = 0, failed = 0, errors = [], ids = []\<rparr>"

text \<open>\<^verbatim>\<open>key.endsWith('_id')\<close>\<close>

definition ends_with :: "string \<Rightarrow> string \<Rightarrow> bool" where
  "ends_with key suffix =
     (length suffix \<le> length key \<and> drop (length key - length suffix) key = suffix)"

text \<open>The test \<^verbatim>\<open>(key) => key === 'id' || key.endsWith('_id')\<close>.\<close>

definition is_id_key :: "string \<Rightarrow> bool" where
  "is_id_key key = (key = ''id'' \<or> ends_with key ''_id'')"

text \<open>\<^verbatim>\<open>Object.keys(firstRow).find(...)\<close> with that test.\<close>

definition find_id_field :: "row \<Rightarrow> string option" where
  "find_id_field firstRow = List.find is_id_key (map fst firstRow)"

text \<open>
  \<^verbatim>\<open>insertBatch\<close>: \<open>Inl\<close> is the error it rethrows.  What its \<^verbatim>\<open>catch\<close> block writes to
  its own \<^verbatim>\<open>result\<close> is lost with the rethrow.  Building the statement text and its
  parameters from the rows is taken to succeed.
\<close>

definition insertBatch ::
  "'db client \<Rightarrow> 'db \<times> command list \<Rightarrow> string \<Rightarrow> row list
     \<Rightarrow> (string + InsertResult) \<times> ('db \<times> command list)" where
  "insertBatch client st tname batch =
     (if batch = [] then (Inr empty_result, st)
      else
        (case query client st (INSERT tname batch) of
           (Inl err, st') \<Rightarrow> (Inl err, st')
         | (Inr queryResult, st') \<Rightarrow>
             let ins = (case rowCount queryResult of None \<Rightarrow> 0 | Some n \<Rightarrow> int n);
                 fl = int (length batch) - ins;
                 harvested =
                   (if 0 < length (rows queryResult) then
                      (case find_id_field (hd (rows queryResult)) of
                         None \<Rightarrow> []
                       | Some idField \<Rightarrow>
                           if idField \<noteq> [] then map (\<lambda>r. row_get r idField) (rows queryResult)
                           else [])
                    else [])
             in (Inr \<lparr>inserted = ins, failed = fl,
                       errors = (if 0 < fl then [RowsSkipped fl] else []),
                       ids = harvested\<rparr>, st')))"

text \<open>
  The loop \<^verbatim>\<open>for (let i = 0; i < rows.length; i += batchSize)\<close> that cuts the rows into
  batches.  With \<^verbatim>\<open>batchSize\<close> zero it does not end: the result is \<open>None\<close>.
\<close>

partial_function (option) split_rows ::
  "nat \<Rightarrow> nat \<Rightarrow> row list \<Rightarrow> row list list \<Rightarrow> row list list option" where
  "split_rows i batchSize rws batches =
     (if i < length rws
      then split_rows (i + batchSize) batchSize rws (batches @ [take batchSize (drop i rws)])
      else Some batches)"

declare split_rows.simps [code]

text \<open>
  The \<^verbatim>\<open>for (const batch of batches)\<close> loop with its inner \<^verbatim>\<open>try\<close>/\<^verbatim>\<open>catch\<close>: an error
  thrown by \<^verbatim>\<open>insertBatch\<close> is caught here, counted and recorded, and the loop goes on.
\<close>

fun insert_batches ::
  "'db client \<Rightarrow> string \<Rightarrow> row list list \<Rightarrow> InsertResult \<times> ('db \<times> command list)
     \<Rightarrow> InsertResult \<times> ('db \<times> command list)" where
  "insert_batches client tname [] acc = acc"
| "insert_batches client tname (batch # batches) acc =
     (case insertBatch client (snd acc) tname batch of
        (Inr batchResult, st') \<Rightarrow>
          insert_batches client tname batches
            ((fst acc)\<lparr>inserted := inserted (fst acc) + inserted batchResult,
                       failed := failed (fst acc) + failed batchResult,
                       errors := errors (fst acc) @ errors batchResult,
                       ids := ids (fst acc) @ ids batchResult\<rparr>, st')
      | (Inl err, st') \<Rightarrow>
          insert_batches client tname batches
            ((fst acc)\<lparr>failed := failed (fst acc) + int (length batch),
                       errors := errors (fst acc) @ [BatchFailed err]\<rparr>, st'))"

text \<open>
  The outer \<^verbatim>\<open>catch\<close>: \<^verbatim>\<open>ROLLBACK\<close>, then the error is thrown again; if \<^verbatim>\<open>ROLLBACK\<close>
  itself throws, that error leaves instead.
\<close>

definition rollback_and_throw ::
  "'db client \<Rightarrow> 'db \<times> command list \<Rightarrow> string
     \<Rightarrow> (string + InsertResult) \<times> ('db \<times> command list)" where
  "rollback_and_throw client st err =
     (case query client st ROLLBACK of
        (Inl err', st') \<Rightarrow> (Inl err', st')
      | (Inr _, st') \<Rightarrow> (Inl err, st'))"

text \<open>
  \<^verbatim>\<open>insertData\<close> on a connection that \<^verbatim>\<open>pool.connect()\<close> has handed out, in state \<open>st\<close>.
  \<open>None\<close>: the call does not return; \<open>Some (Inl e, _)\<close>: it throws \<open>e\<close>;
  \<open>Some (Inr r, _)\<close>: it returns \<open>r\<close>.
\<close>

definition insertData ::
  "'db client \<Rightarrow> 'db \<times> command list \<Rightarrow> string \<Rightarrow> row list \<Rightarrow> nat
     \<Rightarrow> ((string + InsertResult) \<times> ('db \<times> command list)) option" where
  "insertData client st tname rws batchSize =
     (if length rws = 0 then Some (Inr empty_result, st)
      else
        (case split_rows 0 batchSize rws [] of
           None \<Rightarrow> None
         | Some batches \<Rightarrow>
             Some
               (case query client st BEGIN of
                  (Inl err, st1) \<Rightarrow> rollback_and_throw client st1 err
                | (Inr _, st1) \<Rightarrow>
                    (case insert_batches client tname batches (empty_result, st1) of
                       (result, st2) \<Rightarrow>
                         (case query client st2 COMMIT of
                            (Inl err, st3) \<Rightarrow> rollback_and_throw client st3 err
                          | (Inr _, st3) \<Rightarrow> (Inr result, st3))))))"

section \<open>Batched generation (generators/ai.ts)\<close>

record GenerationContext =
  tableSchema :: TableDefinition
  count :: int

definition getOptimalBatchSize :: "GenerationContext \<Rightarrow> int" where
  "getOptimalBatchSize context =
     (let fieldCount = length (tableFields (tableSchema context))
      in if 15 < fieldCount then 10
         else if 10 < fieldCount then 20
         else 30)"

text \<open>
  The \<^verbatim>\<open>while (remaining > 0)\<close> loop of \<^verbatim>\<open>generateWithOpenAI\<close>, for any batch size;
  \<open>None\<close> when it does not end.
\<close>

partial_function (option) split_count :: "int \<Rightarrow> int \<Rightarrow> int list \<Rightarrow> int list option" where
  "split_count remaining batchSize batches =
     (if 0 < remaining
      then split_count (remaining - min remaining batchSize) batchSize
             (batches @ [min remaining batchSize])
      else Some batches)"

declare split_count.simps [code]

text \<open>
  The row counts that \<^verbatim>\<open>generateWithOpenAI\<close> asks \<^verbatim>\<open>generateBatch\<close> for, in order: the
  whole count when it does not exceed the batch size, the \<^verbatim>\<open>batches\<close> array otherwise.
\<close>

definition generateWithOpenAI_batches :: "GenerationContext \<Rightarrow> int list option" where
  "generateWithOpenAI_batches context =
     (let batchSize = getOptimalBatchSize context
      in if count context \<le> batchSize then Some [count context]
         else split_count (count context) batchSize [])"

text \<open>
  An identifier returned by \<^verbatim>\<open>extractIds\<close>: a value taken from a row, or for a composite
  key a new object with one member per identifier field.
\<close>

datatype idval = Plain jsval | Composite row

definition extractIds :: "row list \<Rightarrow> TableDefinition \<Rightarrow> idval list" where
  "extractIds rws schema =
     (let idFields = filter isId (tableFields schema)
      in if length idFields = 0 then
           (if rws \<noteq> [] \<and> row_get (hd rws) ''id'' \<noteq> Undefined
            then map (\<lambda>r. Plain (row_get r ''id'')) rws
            else map (\<lambda>i. Plain (Num (int i + 1))) [0..<length rws])
         else if length idFields = 1 then
           map Plain (filter (\<lambda>v. v \<noteq> Undefined)
                        (map (\<lambda>r. row_get r (fieldName (hd idFields))) rws))
         else
           map (\<lambda>r. Composite
                      (foldl (\<lambda>compositeId f.
                                AList.update (fieldName f) (row_get r (fieldName f)) compositeId)
                         [] idFields)) rws)"

record GenerationResult =
  rows :: "row list"
  ids :: "idval list"

text \<open>\<^verbatim>\<open>rows.slice(0, count)\<close>; a negative end counts from the end of the array.\<close>

definition slice0 :: "'a list \<Rightarrow> int \<Rightarrow> 'a list" where
  "slice0 xs n = (if n < 0 then take (nat (int (length xs) + n)) xs else take (nat n) xs)"

text \<open>
  What one attempt of \<^verbatim>\<open>generateBatch\<close> gets from the model: the request or the parsing
  throws, or the parsed \<^verbatim>\<open>rows\<close> is not an array, or it is an array of row objects.
\<close>

datatype reply = Threw string | NonArray | RowArray "row list"

text \<open>
  The attempt loop of \<^verbatim>\<open>generateBatch\<close>: \<open>n\<close> attempts are left, \<open>attempt\<close> is the loop
  counter, \<open>lastError\<close> the error of the previous attempt.  \<open>Inl\<close> is the error thrown
  after the last attempt.  The waiting between attempts has no effect on the result.  The
  client and the prompt are built before the loop and are taken to exist.
\<close>

fun generateBatch_loop ::
  "(nat \<Rightarrow> reply) \<Rightarrow> TableDefinition \<Rightarrow> int \<Rightarrow> nat \<Rightarrow> nat \<Rightarrow> string option
     \<Rightarrow> string + GenerationResult" where
  "generateBatch_loop api schema cnt attempt 0 lastError =
     Inl (case lastError of None \<Rightarrow> ''Failed to generate batch'' | Some e \<Rightarrow> e)"
| "generateBatch_loop api schema cnt attempt (Suc n) lastError =
     (case api attempt of
        Threw e \<Rightarrow> generateBatch_loop api schema cnt (Suc attempt) n (Some e)
      | NonArray \<Rightarrow>
          generateBatch_loop api schema cnt (Suc attempt) n (Some ''Response is not an array'')
      | RowArray rws \<Rightarrow>
          if length rws = 0
          then generateBatch_loop api schema cnt (Suc attempt) n (Some ''Generated 0 rows'')
          else Inr \<lparr>GenerationResult.rows = slice0 rws cnt,
                    GenerationResult.ids = extractIds rws schema\<rparr>)"

text \<open>\<^verbatim>\<open>config.ai?.maxRetries || 3\<close>\<close>

definition retries_of :: "int option \<Rightarrow> int" where
  "retries_of maxRetries = (case maxRetries of None \<Rightarrow> 3 | Some m \<Rightarrow> if m = 0 then 3 else m)"

definition generateBatch ::
  "(nat \<Rightarrow> reply) \<Rightarrow> int option \<Rightarrow> GenerationContext \<Rightarrow> int \<Rightarrow> string + GenerationResult" where
  "generateBatch api maxRetries context cnt =
     generateBatch_loop api (tableSchema context) cnt 0 (nat (retries_of maxRetries)) None"

section \<open>Sample inputs\<close>

definition sample_field :: FieldDefinition where
  "sample_field = \<lparr>fieldName = ''title'', isId = False, relation = None\<rparr>"

definition sample_context :: "nat \<Rightarrow> int \<Rightarrow> GenerationContext" where
  "sample_context n c =
     \<lparr>tableSchema = \<lparr>tableName = ''Post'', tableFields = replicate n sample_field\<rparr>, count = c\<rparr>"

definition three_rows :: "row list" where
  "three_rows = [[(''id'', Num 1)], [(''id'', Num 2)], [(''id'', Num 3)]]"

definition plain_schema :: TableDefinition where
  "plain_schema = \<lparr>tableName = ''User'', tableFields = []\<rparr>"

definition user_fk :: FieldDefinition where
  "user_fk = \<lparr>fieldName = ''userId'', isId = False,
              relation = Some \<lparr>relatedTable = ''User'', foreignKeyField = Some ''userId''\<rparr>\<rparr>"

definition post_schema :: TableDefinition where
  "post_schema = \<lparr>tableName = ''Post'', tableFields = [user_fk]\<rparr>"

definition user_ids :: "string \<rightharpoonup> jsval list" where
  "user_ids = [''User'' \<mapsto> [Num 10, Num 20, Num 30]]"

definition tenant_schema :: TableDefinition where
  "tenant_schema =
     \<lparr>tableName = ''Membership'',
      tableFields =
        [\<lparr>fieldName = ''user'', isId = False,
          relation = Some \<lparr>relatedTable = ''User'', foreignKeyField = Some ''tenantId''\<rparr>\<rparr>,
         \<lparr>fieldName = ''post'', isId = False,
          relation = Some \<lparr>relatedTable = ''Post'', foreignKeyField = Some ''tenantId''\<rparr>\<rparr>]\<rparr>"

definition tenant_ids :: "string \<rightharpoonup> jsval list" where
  "tenant_ids = [''User'' \<mapsto> [Num 1], ''Post'' \<mapsto> [Num 2]]"

definition sample_store :: "row list" where
  "sample_store = [[(''title'', Str ''Hello''), (''userId'', Num 999)]]"

definition throws_on :: "(command \<Rightarrow> bool) \<Rightarrow> unit client" where
  "throws_on p db c =
     (if p c then (Inl ''boom'', db) else (Inr \<lparr>rowCount = None, QueryResult.rows = []\<rparr>, db))"

fun is_insert :: "command \<Rightarrow> bool" where
  "is_insert (INSERT t b) = True"
| "is_insert c = False"

definition returning :: "row list \<Rightarrow> unit client" where
  "returning rs db c =
     (if is_insert c then (Inr \<lparr>rowCount = Some (length rs), QueryResult.rows = rs\<rparr>, db)
      else (Inr \<lparr>rowCount = None, QueryResult.rows = []\<rparr>, db))"

definition uid_rows :: "row list" where
  "uid_rows = [[(''uid'', Num 1), (''name'', Str ''a'')], [(''uid'', Num 2), (''name'', Str ''b'')]]"

text \<open>
  A database that accepts every statement; \<^verbatim>\<open>RETURNING *\<close> gives back the rows of the
  batch.
\<close>

definition accepting :: "unit client" where
  "accepting db c =
     (case c of
        INSERT t b \<Rightarrow> (Inr \<lparr>rowCount = Some (length b), QueryResult.rows = b\<rparr>, db)
      | _ \<Rightarrow> (Inr \<lparr>rowCount = None, QueryResult.rows = []\<rparr>, db))"

text \<open>
  A database whose state counts the \<^verbatim>\<open>INSERT\<close> statements it has seen: it accepts the
  first and throws on every later one.
\<close>

definition fails_after_first :: "nat client" where
  "fails_after_first n c =
     (case c of
        INSERT t b \<Rightarrow>
          (if n = 0 then Inr \<lparr>rowCount = Some (length b), QueryResult.rows = b\<rparr>
           else Inl ''boom'', Suc n)
      | _ \<Rightarrow> (Inr \<lparr>rowCount = None, QueryResult.rows = []\<rparr>, n))"

definition order_rows :: "row list" where
  "order_rows =
     [[(''total'', Num 5), (''order_id'', Num 7)], [(''total'', Num 6), (''order_id'', Num 8)],
      [(''total'', Num 9), (''order_id'', Num 11)]]"

definition fk_field :: "string \<Rightarrow> FieldDefinition" where
  "fk_field t =
     \<lparr>fieldName = t @ ''Id'', isId = False,
      relation = Some \<lparr>relatedTable = t, foreignKeyField = Some (t @ ''Id'')\<rparr>\<rparr>"

definition table_with_fks :: "string \<Rightarrow> string list \<Rightarrow> TableDefinition" where
  "table_with_fks n ts = \<lparr>tableName = n, tableFields = map fk_field ts\<rparr>"

definition entangled_tables :: "TableDefinition list" where
  "entangled_tables =
     [table_with_fks ''X'' [], table_with_fks ''Y'' [],
      table_with_fks ''A'' [''X'', ''Y'', ''B''],
      table_with_fks ''B'' [''A'', ''C''],
      table_with_fks ''C'' [''B'']]"

section \<open>Notions used to state the properties of the insertion\<close>

text \<open>
  What the database answers to the \<^verbatim>\<open>INSERT\<close> statements of the batches when they are
  issued one after another, the first in state \<open>db\<close>.
\<close>

fun insert_replies ::
  "'db client \<Rightarrow> string \<Rightarrow> row list list \<Rightarrow> 'db \<Rightarrow> (string + QueryResult) list" where
  "insert_replies client tname [] db = []"
| "insert_replies client tname (b # bs) db =
     fst (client db (INSERT tname b))
       # insert_replies client tname bs (snd (client db (INSERT tname b)))"

section \<open>Notions used to state the properties of the orderings\<close>

text \<open>
  A graph as \<^verbatim>\<open>buildDependencyGraph\<close> leaves it: the keys are distinct, no list of
  dependencies or dependents repeats a name, and between two nodes of the graph the
  dependents of one mirror the dependencies of the other.
\<close>

definition wf_graph :: "graph \<Rightarrow> bool" where
  "wf_graph g \<longleftrightarrow>
     distinct (map fst g) \<and>
     (\<forall>a n. map_of g a = Some n \<longrightarrow> distinct (dependencies n) \<and> distinct (dependents n)) \<and>
     (\<forall>a c na nc. map_of g a = Some na \<and> map_of g c = Some nc \<longrightarrow>
        (a \<in> set (dependents nc)) = (c \<in> set (dependencies na)))"

text \<open>The position of the first occurrence of a name, \<^verbatim>\<open>order.indexOf(x)\<close>.\<close>

fun index_of :: "string list \<Rightarrow> string \<Rightarrow> nat" where
  "index_of [] x = 0"
| "index_of (y # ys) x = (if y = x then 0 else Suc (index_of ys x))"

text \<open>
  The state of the queue loop before each iteration: the in-degree of a node counts its
  dependencies that are not yet in the order, a node is in the order or in the queue
  exactly when none is left, and in the order every dependency precedes its dependent.
\<close>

definition kahn_inv :: "graph \<Rightarrow> degrees \<Rightarrow> string list \<Rightarrow> string list \<Rightarrow> bool" where
  "kahn_inv g m q ord \<longleftrightarrow>
     distinct (map fst m) \<and> distinct (ord @ q) \<and> set (ord @ q) \<subseteq> fst ` set g \<and>
     (\<forall>t \<in> fst ` set g. degree_of m t = int (card (set (deps_of g t) - set ord))) \<and>
     (\<forall>t \<in> fst ` set g. (t \<in> set (ord @ q)) = (set (deps_of g t) \<subseteq> set ord)) \<and>
     (\<forall>t. t \<notin> fst ` set g \<longrightarrow> degree_of m t \<le> 0) \<and>
     (\<forall>a \<in> set ord. \<forall>b \<in> set (deps_of g a). index_of ord b < index_of ord a)"

text \<open>
  The edges of the graph, from a table to a table it depends on, and the tables that can
  be ordered: those from which the edges lead neither to a table on a cycle nor to a
  table that refers to a name missing from the graph.
\<close>

definition depends_on :: "graph \<Rightarrow> (string \<times> string) set" where
  "depends_on g = {(a, b). b \<in> set (deps_of g a)}"

definition resolvable :: "graph \<Rightarrow> string \<Rightarrow> bool" where
  "resolvable g a \<longleftrightarrow>
     (\<forall>x. (a, x) \<in> (depends_on g)\<^sup>* \<longrightarrow>
        (x, x) \<notin> (depends_on g)\<^sup>+ \<and> (\<forall>y. (x, y) \<in> depends_on g \<longrightarrow> y \<in> fst ` set g))"

definition blog_tables :: "TableDefinition list" where
  "blog_tables =
     [table_with_fks ''User'' [], table_with_fks ''Post'' [''User''],
      table_with_fks ''Comment'' [''Post'']]"

definition chain_tables :: "TableDefinition list" where
  "chain_tables =
     [table_with_fks ''A'' [''B''], table_with_fks ''B'' [''C''],
      table_with_fks ''C'' [''D''], table_with_fks ''D'' [''C'']]"

section \<open>Properties of batched generation\<close>

lemma split_count_closed:
  assumes bs: "0 < batchSize"
  shows "0 \<le> remaining \<Longrightarrow>
         split_count remaining batchSize batches =
           Some (batches @ replicate (nat (remaining div batchSize)) batchSize
                   @ (if remaining mod batchSize = 0 then [] else [remaining mod batchSize]))"
proof (induction "nat remaining" arbitrary: remaining batches rule: less_induct)
  case less
  show ?case
  proof (cases "0 < remaining")
    case False
    with less.prems have "remaining = 0" by simp
    then show ?thesis by (subst split_count.simps) simp
  next
    case pos: True
    show ?thesis
    proof (cases "remaining \<le> batchSize")
      case True
      then have m: "min remaining batchSize = remaining" by simp
      have step: "split_count remaining batchSize batches
                    = split_count 0 batchSize (batches @ [remaining])"
        using pos m by (subst split_count.simps) simp
      have z: "split_count 0 batchSize (batches @ [remaining]) = Some (batches @ [remaining])"
        by (subst split_count.simps) simp
      show ?thesis
      proof (cases "remaining = batchSize")
        case True
        then show ?thesis using step z bs by simp
      next
        case False
        with True have lt: "remaining < batchSize" by simp
        then have "remaining div batchSize = 0" "remaining mod batchSize = remaining"
          using pos by simp_all
        then show ?thesis using step z pos by simp
      qed
    next
      case False
      then have gt: "batchSize < remaining" by simp
      then have m: "min remaining batchSize = batchSize" by simp
      have step: "split_count remaining batchSize batches
                    = split_count (remaining - batchSize) batchSize (batches @ [batchSize])"
        using pos m by (subst split_count.simps) simp
      have less': "nat (remaining - batchSize) < nat remaining" using bs gt by simp
      have nn: "0 \<le> remaining - batchSize" using gt by simp
      have d: "remaining div batchSize = (remaining - batchSize) div batchSize + 1"
        using bs by (metis add.commute diff_add_cancel div_add_self1 less_irrefl)
      have mo: "remaining mod batchSize = (remaining - batchSize) mod batchSize"
        by (metis mod_diff_right_eq mod_self diff_zero)
      have dn: "0 \<le> (remaining - batchSize) div batchSize"
        using nn bs by (simp add: pos_imp_zdiv_nonneg_iff)
      have r: "replicate (nat (remaining div batchSize)) batchSize
                 = batchSize # replicate (nat ((remaining - batchSize) div batchSize)) batchSize"
        using d dn by (simp add: nat_add_distrib)
      show ?thesis
        unfolding step less.hyps[OF less' nn] r mo by simp
    qed
  qed
qed

text \<open>
  Claim C6.  The batch size of a table is 10 when it has more than 15 fields, 20 when it
  has 11 to 15 fields and 30 when it has at most 10 fields.  A positive requested count
  is cut into consecutive batches of that size, the last batch taking the remainder; 105
  rows for a table with at most 10 fields give the batches 30, 30, 30, 15.
\<close>

theorem batch_plan:
  "(15 < length (tableFields (tableSchema context)) \<longrightarrow> getOptimalBatchSize context = 10) \<and>
   (10 < length (tableFields (tableSchema context)) \<and>
      length (tableFields (tableSchema context)) \<le> 15 \<longrightarrow> getOptimalBatchSize context = 20) \<and>
   (length (tableFields (tableSchema context)) \<le> 10 \<longrightarrow> getOptimalBatchSize context = 30) \<and>
   (0 < count context \<longrightarrow>
      generateWithOpenAI_batches context =
        Some (replicate (nat (count context div getOptimalBatchSize context))
                (getOptimalBatchSize context)
              @ (if count context mod getOptimalBatchSize context = 0 then []
                 else [count context mod getOptimalBatchSize context]))) \<and>
   (length (tableFields (tableSchema context)) \<le> 10 \<and> count context = 105 \<longrightarrow>
      generateWithOpenAI_batches context = Some [30, 30, 30, 15])"
proof -
  have bs: "0 < getOptimalBatchSize context"
    by (simp add: getOptimalBatchSize_def Let_def)
  have sizes: "(15 < length (tableFields (tableSchema context)) \<longrightarrow> getOptimalBatchSize context = 10) \<and>
   (10 < length (tableFields (tableSchema context)) \<and>
      length (tableFields (tableSchema context)) \<le> 15 \<longrightarrow> getOptimalBatchSize context = 20) \<and>
   (length (tableFields (tableSchema context)) \<le> 10 \<longrightarrow> getOptimalBatchSize context = 30)"
    by (simp add: getOptimalBatchSize_def Let_def)
  have plan: "generateWithOpenAI_batches context =
        Some (replicate (nat (count context div getOptimalBatchSize context))
                (getOptimalBatchSize context)
              @ (if count context mod getOptimalBatchSize context = 0 then []
                 else [count context mod getOptimalBatchSize context]))"
    if pos: "0 < count context"
  proof (cases "count context \<le> getOptimalBatchSize context")
    case False
    then show ?thesis
      using split_count_closed[OF bs, of "count context" "[]"] pos
      by (simp add: generateWithOpenAI_batches_def Let_def)
  next
    case True
    show ?thesis
    proof (cases "count context = getOptimalBatchSize context")
      case True
      then show ?thesis using bs by (simp add: generateWithOpenAI_batches_def Let_def)
    next
      case False
      with True have "count context < getOptimalBatchSize context" by simp
      then have "count context div getOptimalBatchSize context = 0"
        "count context mod getOptimalBatchSize context = count context"
        using pos by simp_all
      then show ?thesis using True pos by (simp add: generateWithOpenAI_batches_def Let_def)
    qed
  qed
  have ex: "generateWithOpenAI_batches context = Some [30, 30, 30, 15]"
    if "length (tableFields (tableSchema context)) \<le> 10 \<and> count context = 105"
  proof -
    have b: "getOptimalBatchSize context = 30" using that sizes by simp
    have "replicate (nat (105 div 30)) (30::int) = [30, 30, 30]"
      by (simp add: numeral_eq_Suc)
    then show ?thesis using plan that b by simp
  qed
  show ?thesis using sizes plan ex by blast
qed

theorem batch_plan_witness:
  "getOptimalBatchSize (sample_context 16 105) = 10 \<and>
   getOptimalBatchSize (sample_context 12 105) = 20 \<and>
   getOptimalBatchSize (sample_context 10 105) = 30 \<and>
   generateWithOpenAI_batches (sample_context 12 105) = Some [20, 20, 20, 20, 20, 5] \<and>
   generateWithOpenAI_batches (sample_context 10 105) = Some [30, 30, 30, 15]"
proof -
  have r: "replicate 5 (20::int) = [20, 20, 20, 20, 20]"
    by (simp add: numeral_eq_Suc)
  have a: "getOptimalBatchSize (sample_context 16 105) = 10"
    using batch_plan[of "sample_context 16 105"] by (simp add: sample_context_def)
  have b: "getOptimalBatchSize (sample_context 12 105) = 20"
    using batch_plan[of "sample_context 12 105"] by (simp add: sample_context_def)
  have c: "getOptimalBatchSize (sample_context 10 105) = 30"
    using batch_plan[of "sample_context 10 105"] by (simp add: sample_context_def)
  have pos: "0 < count (sample_context 12 105)" by (simp add: sample_context_def)
  have d: "generateWithOpenAI_batches (sample_context 12 105) = Some [20, 20, 20, 20, 20, 5]"
    using batch_plan[of "sample_context 12 105", THEN conjunct2, THEN conjunct2,
                     THEN conjunct2, THEN conjunct1, rule_format, OF pos]
    unfolding b by (simp add: sample_context_def r)
  have h: "length (tableFields (tableSchema (sample_context 10 105))) \<le> 10 \<and>
           count (sample_context 10 105) = 105"
    by (simp add: sample_context_def)
  have e: "generateWithOpenAI_batches (sample_context 10 105) = Some [30, 30, 30, 15]"
    using batch_plan[of "sample_context 10 105", THEN conjunct2, THEN conjunct2,
                     THEN conjunct2, THEN conjunct2, rule_format, OF h] .
  show ?thesis using a b c d e by simp
qed

lemma generateBatch_loop_success:
  "generateBatch_loop api schema cnt attempt n lastError = Inr res \<Longrightarrow>
   \<exists>i rws. api i = RowArray rws \<and> rws \<noteq> [] \<and>
     GenerationResult.rows res = slice0 rws cnt \<and>
     GenerationResult.ids res = extractIds rws schema"
proof (induction n arbitrary: attempt lastError)
  case 0
  then show ?case by simp
next
  case (Suc n)
  show ?case
  proof (cases "api attempt")
    case (Threw e)
    with Suc.prems have "generateBatch_loop api schema cnt (Suc attempt) n (Some e) = Inr res"
      by simp
    then show ?thesis by (rule Suc.IH)
  next
    case NonArray
    with Suc.prems have
      "generateBatch_loop api schema cnt (Suc attempt) n (Some ''Response is not an array'') = Inr res"
      by simp
    then show ?thesis by (rule Suc.IH)
  next
    case (RowArray rws)
    show ?thesis
    proof (cases "rws = []")
      case True
      with Suc.prems RowArray have
        "generateBatch_loop api schema cnt (Suc attempt) n (Some ''Generated 0 rows'') = Inr res"
        by simp
      then show ?thesis by (rule Suc.IH)
    next
      case False
      with Suc.prems RowArray have
        "res = \<lparr>GenerationResult.rows = slice0 rws cnt,
                GenerationResult.ids = extractIds rws schema\<rparr>"
        by simp
      then show ?thesis using RowArray False by auto
    qed
  qed
qed

lemma length_extractIds:
  "length (filter isId (tableFields schema)) \<noteq> 1 \<Longrightarrow>
   length (extractIds rws schema) = length rws"
  by (simp add: extractIds_def Let_def)

lemma length_slice0: "0 \<le> n \<Longrightarrow> length (slice0 xs n) = min (nat n) (length xs)"
  by (simp add: slice0_def min_def)

text \<open>
  Claim C8.  A successful \<^verbatim>\<open>generateBatch\<close> returns the rows of some attempt truncated to
  the requested count, and the identifiers extracted from the rows of that attempt before
  truncation.  Unless the table has exactly one identifier field there is one identifier
  per untruncated row, so when the attempt produced more rows than requested the result
  has more identifiers than rows.
\<close>

theorem generateBatch_ids_untruncated:
  assumes "generateBatch api maxRetries context cnt = Inr res"
  shows "\<exists>i rws. api i = RowArray rws \<and> rws \<noteq> [] \<and>
           GenerationResult.rows res = slice0 rws cnt \<and>
           GenerationResult.ids res = extractIds rws (tableSchema context) \<and>
           (0 \<le> cnt \<longrightarrow> length (GenerationResult.rows res) = min (nat cnt) (length rws)) \<and>
           (length (filter isId (tableFields (tableSchema context))) \<noteq> 1 \<longrightarrow>
              length (GenerationResult.ids res) = length rws) \<and>
           (0 \<le> cnt \<and> nat cnt < length rws \<and>
            length (filter isId (tableFields (tableSchema context))) \<noteq> 1 \<longrightarrow>
              length (GenerationResult.rows res) < length (GenerationResult.ids res))"
proof -
  from assms obtain i rws where a: "api i = RowArray rws" "rws \<noteq> []"
      "GenerationResult.rows res = slice0 rws cnt"
      "GenerationResult.ids res = extractIds rws (tableSchema context)"
    unfolding generateBatch_def by (blast dest: generateBatch_loop_success)
  have b: "0 \<le> cnt \<longrightarrow> length (GenerationResult.rows res) = min (nat cnt) (length rws)"
    using a(3) by (simp add: length_slice0)
  have c: "length (filter isId (tableFields (tableSchema context))) \<noteq> 1 \<longrightarrow>
              length (GenerationResult.ids res) = length rws"
    using a(4) by (simp add: length_extractIds)
  have d: "0 \<le> cnt \<and> nat cnt < length rws \<and>
            length (filter isId (tableFields (tableSchema context))) \<noteq> 1 \<longrightarrow>
              length (GenerationResult.rows res) < length (GenerationResult.ids res)"
    using b c by simp
  show ?thesis using a b c d by blast
qed

theorem generateBatch_ids_untruncated_witness:
  "generateBatch (\<lambda>_. RowArray three_rows) None \<lparr>tableSchema = plain_schema, count = 2\<rparr> 2
     = Inr \<lparr>GenerationResult.rows = [[(''id'', Num 1)], [(''id'', Num 2)]],
            GenerationResult.ids = [Plain (Num 1), Plain (Num 2), Plain (Num 3)]\<rparr> \<and>
   (\<exists>i rws. (\<lambda>_. RowArray three_rows) i = RowArray rws \<and>
      length (slice0 rws 2) < length (extractIds rws plain_schema))"
proof -
  have run: "generateBatch (\<lambda>_. RowArray three_rows) None
               \<lparr>tableSchema = plain_schema, count = 2\<rparr> 2
             = Inr \<lparr>GenerationResult.rows = [[(''id'', Num 1)], [(''id'', Num 2)]],
                    GenerationResult.ids = [Plain (Num 1), Plain (Num 2), Plain (Num 3)]\<rparr>"
    by (simp add: generateBatch_def retries_of_def numeral_3_eq_3 three_rows_def plain_schema_def
                  slice0_def extractIds_def row_get_def)
  from generateBatch_ids_untruncated[OF run]
  obtain i rws where "(\<lambda>_. RowArray three_rows) i = RowArray rws"
    and "[[(''id'', Num 1)], [(''id'', Num 2)]] = slice0 rws 2"
    and "[Plain (Num 1), Plain (Num 2), Plain (Num 3)] = extractIds rws plain_schema"
    by auto
  then have "\<exists>i rws. (\<lambda>_. RowArray three_rows) i = RowArray rws \<and>
      length (slice0 rws 2) < length (extractIds rws plain_schema)"
    by (metis length_Cons list.size(3) lessI)
  with run show ?thesis by simp
qed

section \<open>Properties of the foreign-key transformation\<close>

lemma match_User_2: "placeholder_match ''{{User_2}}'' = Some (''User'', ''2'')"
  by code_simp

lemma resolve_User_2: "resolve_placeholder user_ids (Str ''{{User_2}}'') = Some (Num 20)"
  by (simp add: resolve_placeholder_def match_User_2 parseInt_def digit_value_def js_index_def
        user_ids_def del: placeholder_match.simps)

text \<open>
  Claim C2.  The row \<^verbatim>\<open>{userId: "{{User_2}}"}\<close> of a table whose field \<^verbatim>\<open>userId\<close> is a
  foreign key to \<^verbatim>\<open>User\<close>, with \<^verbatim>\<open>idMappings.User = [10, 20, 30]\<close>.  The placeholder is
  replaced by 20, but the membership test that follows looks at the placeholder string
  itself, finds it missing from the list and overwrites the member with a random
  identifier: with a draw of 0 the output is 10.
\<close>

theorem placeholder_overwritten:
  "transformForeignKeys (\<lambda>_. 0) 0 [[(''userId'', Str ''{{User_2}}'')]] post_schema user_ids
     = ([[(''userId'', Num 10)]], 1)"
proof -
  have look: "user_ids ''User'' = Some [Num 10, Num 20, Num 30]"
    by (simp add: user_ids_def)
  have "transform_field (\<lambda>_. 0) user_ids ([(''userId'', Str ''{{User_2}}'')], 0) user_fk
          = ([(''userId'', Num 10)], 1)"
    by (simp add: transform_field_def user_fk_def truthy_str_def row_get_def resolve_User_2
          look js_index_def Let_def)
  then show ?thesis
    by (simp add: transform_row_def post_schema_def Let_def)
qed



lemma row_get_update:
  "row_get (AList.update k v r) k' = (if k' = k then v else row_get r k')"
  by (simp add: row_get_def update_conv')

lemma keys_update_present:
  "row_get r k \<noteq> Undefined \<Longrightarrow> map fst (AList.update k v r) = map fst r"
  by (force simp: row_get_def update_keys split: option.splits dest: map_of_SomeD)

lemma random_pick_member:
  assumes "0 \<le> x" "x < 1" "pool \<noteq> []"
  shows "js_index pool \<lfloor>x * real (length pool)\<rfloor> \<in> set pool"
proof -
  have n: "0 < real (length pool)" using assms(3) by simp
  have lo: "0 \<le> \<lfloor>x * real (length pool)\<rfloor>" using assms(1) by simp
  have "x * real (length pool) < real (length pool)" using assms(2) n by simp
  then have hi: "\<lfloor>x * real (length pool)\<rfloor> < int (length pool)"
    by (simp add: floor_less_iff)
  have "nat \<lfloor>x * real (length pool)\<rfloor> < length pool" using lo hi by linarith
  then have m: "pool ! nat \<lfloor>x * real (length pool)\<rfloor> \<in> set pool" by (rule nth_mem)
  have "js_index pool \<lfloor>x * real (length pool)\<rfloor> = pool ! nat \<lfloor>x * real (length pool)\<rfloor>"
    using lo hi by (simp add: js_index_def)
  then show ?thesis using m by (simp only:)
qed

lemma transform_field_fk:
  assumes "relation g = Some rel" "foreignKeyField rel = Some fkf" "fkf \<noteq> []"
  shows "transform_field rnd idm st g =
     (if row_get (fst st) fkf = Null \<or> row_get (fst st) fkf = Undefined then st
      else (case idm (relatedTable rel) of
              None \<Rightarrow>
                ((case resolve_placeholder idm (row_get (fst st) fkf) of
                    None \<Rightarrow> fst st
                  | Some newv \<Rightarrow> AList.update fkf newv (fst st)), snd st)
            | Some availableIds \<Rightarrow>
                if 0 < length availableIds \<and> row_get (fst st) fkf \<notin> set availableIds
                then (AList.update fkf
                        (js_index availableIds \<lfloor>rnd (snd st) * real (length availableIds)\<rfloor>)
                        (case resolve_placeholder idm (row_get (fst st) fkf) of
                           None \<Rightarrow> fst st
                         | Some newv \<Rightarrow> AList.update fkf newv (fst st)),
                      Suc (snd st))
                else ((case resolve_placeholder idm (row_get (fst st) fkf) of
                         None \<Rightarrow> fst st
                       | Some newv \<Rightarrow> AList.update fkf newv (fst st)), snd st)))"
  using assms by (simp add: transform_field_def truthy_str_def Let_def)

lemma transform_field_other:
  assumes "\<forall>rel. relation g = Some rel \<longrightarrow> foreignKeyField rel \<noteq> Some name"
  shows "row_get (fst (transform_field rnd idm st g)) name = row_get (fst st) name"
proof (cases "relation g")
  case None
  then show ?thesis by (simp add: transform_field_def)
next
  case (Some rel)
  show ?thesis
  proof (cases "truthy_str (foreignKeyField rel)")
    case False
    then show ?thesis using Some by (simp add: transform_field_def)
  next
    case True
    then obtain fkf where f: "foreignKeyField rel = Some fkf" "fkf \<noteq> []"
      by (auto simp: truthy_str_def split: option.splits)
    have ne: "name \<noteq> fkf" using assms Some f by auto
    show ?thesis
      unfolding transform_field_fk[OF Some f]
      using ne by (auto simp: row_get_update split: option.splits)
  qed
qed

lemma transform_field_keys:
  "map fst (fst (transform_field rnd idm st g)) = map fst (fst st)"
proof (cases "relation g")
  case None
  then show ?thesis by (simp add: transform_field_def)
next
  case (Some rel)
  show ?thesis
  proof (cases "truthy_str (foreignKeyField rel)")
    case False
    then show ?thesis using Some by (simp add: transform_field_def)
  next
    case True
    then obtain fkf where f: "foreignKeyField rel = Some fkf" "fkf \<noteq> []"
      by (auto simp: truthy_str_def split: option.splits)
    have k: "row_get r fkf \<noteq> Undefined \<Longrightarrow> row_get (AList.update fkf v r) fkf \<noteq> Undefined
               \<or> True" for r v by simp
    show ?thesis
    proof (cases "row_get (fst st) fkf = Undefined")
      case True
      then show ?thesis unfolding transform_field_fk[OF Some f] by simp
    next
      case False
      have present: "fkf \<in> set (map fst (fst st))"
        using False by (force simp: row_get_def split: option.splits dest: map_of_SomeD)
      have keep: "map fst (AList.update fkf v r) = map fst r" if "fkf \<in> set (map fst r)" for v r
        using that by (simp add: update_keys)
      show ?thesis
        unfolding transform_field_fk[OF Some f]
        using present by (auto simp: keep split: option.splits)
    qed
  qed
qed

lemma transform_field_null:
  assumes "row_get (fst st) name = Null \<or> row_get (fst st) name = Undefined"
  shows "row_get (fst (transform_field rnd idm st g)) name = row_get (fst st) name"
proof (cases "\<forall>rel. relation g = Some rel \<longrightarrow> foreignKeyField rel \<noteq> Some name")
  case True
  then show ?thesis by (rule transform_field_other)
next
  case False
  then obtain rel where r: "relation g = Some rel" "foreignKeyField rel = Some name" by auto
  show ?thesis
  proof (cases "name = []")
    case True
    then show ?thesis using r by (simp add: transform_field_def truthy_str_def)
  next
    case False
    show ?thesis unfolding transform_field_fk[OF r False] using assms by auto
  qed
qed

lemma transform_row_other:
  assumes "\<forall>g \<in> set (tableFields schema). \<forall>rel. relation g = Some rel
             \<longrightarrow> foreignKeyField rel \<noteq> Some name"
  shows "row_get (fst (transform_row rnd schema idm st)) name = row_get (fst st) name"
proof -
  have "\<forall>g \<in> set fs. \<forall>rel. relation g = Some rel \<longrightarrow> foreignKeyField rel \<noteq> Some name \<Longrightarrow>
        row_get (fst (foldl (transform_field rnd idm) st fs)) name = row_get (fst st) name"
    for fs
    by (induction fs arbitrary: st) (simp_all add: transform_field_other)
  then show ?thesis using assms by (simp add: transform_row_def)
qed

lemma transform_row_keys:
  "map fst (fst (transform_row rnd schema idm st)) = map fst (fst st)"
proof -
  have "map fst (fst (foldl (transform_field rnd idm) st fs)) = map fst (fst st)" for fs
    by (induction fs arbitrary: st) (simp_all add: transform_field_keys)
  then show ?thesis by (simp add: transform_row_def)
qed

lemma transform_row_null:
  assumes "row_get (fst st) name = Null \<or> row_get (fst st) name = Undefined"
  shows "row_get (fst (transform_row rnd schema idm st)) name = row_get (fst st) name"
proof -
  have "row_get (fst st) name = Null \<or> row_get (fst st) name = Undefined \<Longrightarrow>
        row_get (fst (foldl (transform_field rnd idm) st fs)) name = row_get (fst st) name"
    for fs
  proof (induction fs arbitrary: st)
    case Nil
    then show ?case by simp
  next
    case (Cons g fs)
    have e: "row_get (fst (transform_field rnd idm st g)) name = row_get (fst st) name"
      using Cons.prems by (rule transform_field_null)
    then have "row_get (fst (transform_field rnd idm st g)) name = Null
             \<or> row_get (fst (transform_field rnd idm st g)) name = Undefined"
      using Cons.prems by simp
    from Cons.IH[OF this] e show ?case by simp
  qed
  then show ?thesis using assms by (simp add: transform_row_def)
qed

lemma length_transformForeignKeys:
  "length (fst (transformForeignKeys rnd k rws schema idm)) = length rws"
  by (induction rws arbitrary: k) (simp_all add: Let_def)

lemma transformForeignKeys_nth:
  "i < length rws \<Longrightarrow>
   \<exists>k'. fst (transformForeignKeys rnd k rws schema idm) ! i
           = fst (transform_row rnd schema idm (rws ! i, k'))"
proof (induction rws arbitrary: k i)
  case Nil
  then show ?case by simp
next
  case (Cons r rs)
  show ?case
  proof (cases i)
    case 0
    then show ?thesis by (auto simp: Let_def)
  next
    case (Suc j)
    then have "j < length rs" using Cons.prems by simp
    from Cons.IH[OF this, of "snd (transform_row rnd schema idm (r, k))"]
    show ?thesis using Suc by (simp add: Let_def)
  qed
qed

lemma resolve_placeholder_Some_is_placeholder:
  "resolve_placeholder idm v = Some w \<Longrightarrow> \<exists>s. v = Str s \<and> includes_open s"
  by (cases v) (auto simp: resolve_placeholder_def split: if_splits)

lemma step_member:
  assumes rnd: "\<forall>k. 0 \<le> rnd k \<and> rnd k < 1"
    and g: "relation g = Some rel" "foreignKeyField rel = Some f" "f \<noteq> []"
    and pool: "idm (relatedTable rel) = Some pool" "pool \<noteq> []"
    and clean: "\<forall>s. Str s \<in> set pool \<longrightarrow> \<not> includes_open s"
    and v: "row_get (fst st) f \<noteq> Null" "row_get (fst st) f \<noteq> Undefined"
  shows "row_get (fst (transform_field rnd idm st g)) f \<in> set pool"
proof (cases "row_get (fst st) f \<in> set pool")
  case True
  have "resolve_placeholder idm (row_get (fst st) f) = None"
  proof (rule ccontr)
    assume "resolve_placeholder idm (row_get (fst st) f) \<noteq> None"
    then obtain w where "resolve_placeholder idm (row_get (fst st) f) = Some w" by auto
    then obtain s where "row_get (fst st) f = Str s" "includes_open s"
      by (blast dest: resolve_placeholder_Some_is_placeholder)
    then show False using True clean by auto
  qed
  then show ?thesis
    unfolding transform_field_fk[OF g] using True v pool by simp
next
  case False
  have "js_index pool \<lfloor>rnd (snd st) * real (length pool)\<rfloor> \<in> set pool"
    using rnd pool(2) by (intro random_pick_member) auto
  then show ?thesis
    unfolding transform_field_fk[OF g] using False v pool by (simp add: row_get_update)
qed

lemma keep_member:
  assumes rnd: "\<forall>k. 0 \<le> rnd k \<and> rnd k < 1"
    and f: "f \<noteq> []"
    and same: "\<forall>rel'. relation g = Some rel' \<and> foreignKeyField rel' = Some f
                 \<longrightarrow> relatedTable rel' = T"
    and pool: "idm T = Some pool" "pool \<noteq> []"
    and clean: "\<forall>s. Str s \<in> set pool \<longrightarrow> \<not> includes_open s"
    and mem: "row_get (fst st) f \<in> set pool"
  shows "row_get (fst (transform_field rnd idm st g)) f \<in> set pool"
proof (cases "\<forall>rel. relation g = Some rel \<longrightarrow> foreignKeyField rel \<noteq> Some f")
  case True
  then show ?thesis using mem by (simp add: transform_field_other)
next
  case False
  then obtain rel where r: "relation g = Some rel" "foreignKeyField rel = Some f" by auto
  then have T: "relatedTable rel = T" using same by simp
  show ?thesis
  proof (cases "row_get (fst st) f = Null \<or> row_get (fst st) f = Undefined")
    case True
    then show ?thesis using mem by (simp add: transform_field_null)
  next
    case False
    then show ?thesis
      using step_member[where idm=idm and pool=pool, OF rnd r f _ pool(2) clean, of st] pool(1) T by simp
  qed
qed

lemma foldl_keep_member:
  assumes rnd: "\<forall>k. 0 \<le> rnd k \<and> rnd k < 1"
    and f: "f \<noteq> []"
    and pool: "idm T = Some pool" "pool \<noteq> []"
    and clean: "\<forall>s. Str s \<in> set pool \<longrightarrow> \<not> includes_open s"
  shows "\<forall>g \<in> set fs. \<forall>rel'. relation g = Some rel' \<and> foreignKeyField rel' = Some f
                 \<longrightarrow> relatedTable rel' = T \<Longrightarrow>
         row_get (fst st) f \<in> set pool \<Longrightarrow>
         row_get (fst (foldl (transform_field rnd idm) st fs)) f \<in> set pool"
proof (induction fs arbitrary: st)
  case Nil
  then show ?case by simp
next
  case (Cons g fs)
  have "row_get (fst (transform_field rnd idm st g)) f \<in> set pool"
    using Cons.prems by (intro keep_member[where idm=idm and T=T and pool=pool, OF rnd f _ pool clean]) auto
  then show ?case using Cons.IH Cons.prems(1) by simp
qed

lemma foldl_becomes_member:
  assumes rnd: "\<forall>k. 0 \<le> rnd k \<and> rnd k < 1"
    and f: "f \<noteq> []"
    and pool: "idm T = Some pool" "pool \<noteq> []"
    and clean: "\<forall>s. Str s \<in> set pool \<longrightarrow> \<not> includes_open s"
  shows "\<forall>g \<in> set fs. \<forall>rel'. relation g = Some rel' \<and> foreignKeyField rel' = Some f
                 \<longrightarrow> relatedTable rel' = T \<Longrightarrow>
         \<exists>g \<in> set fs. \<exists>rel. relation g = Some rel \<and> foreignKeyField rel = Some f \<Longrightarrow>
         row_get (fst st) f \<noteq> Null \<Longrightarrow> row_get (fst st) f \<noteq> Undefined \<Longrightarrow>
         row_get (fst (foldl (transform_field rnd idm) st fs)) f \<in> set pool"
proof (induction fs arbitrary: st)
  case Nil
  then show ?case by simp
next
  case (Cons g fs)
  have same': "\<forall>g \<in> set fs. \<forall>rel'. relation g = Some rel' \<and> foreignKeyField rel' = Some f
                 \<longrightarrow> relatedTable rel' = T"
    using Cons.prems(1) by simp
  show ?case
  proof (cases "\<forall>rel. relation g = Some rel \<longrightarrow> foreignKeyField rel \<noteq> Some f")
    case True
    then have e: "row_get (fst (transform_field rnd idm st g)) f = row_get (fst st) f"
      by (rule transform_field_other)
    have "\<exists>g \<in> set fs. \<exists>rel. relation g = Some rel \<and> foreignKeyField rel = Some f"
      using Cons.prems(2) True by auto
    from Cons.IH[OF same' this, of "transform_field rnd idm st g"] e Cons.prems(3,4)
    show ?thesis by simp
  next
    case False
    then obtain rel where r: "relation g = Some rel" "foreignKeyField rel = Some f" by auto
    then have T: "relatedTable rel = T" using Cons.prems(1) by simp
    have "row_get (fst (transform_field rnd idm st g)) f \<in> set pool"
      using step_member[where idm=idm and pool=pool, OF rnd r f _ pool(2) clean Cons.prems(3,4)] pool(1) T by simp
    from foldl_keep_member[where idm=idm and T=T and pool=pool, OF rnd f pool clean same' this]
    show ?thesis by simp
  qed
qed

text \<open>
  Claim C5, as amended.  Let a field of the table declare the foreign key \<open>f\<close> to a table
  whose identifier list \<open>pool\<close> is non-empty.  Suppose every field of the table that declares
  the same foreign-key member refers to that same table, that no identifier in \<open>pool\<close> is a
  string containing \<^verbatim>\<open>{{\<close>, and that every draw of \<^verbatim>\<open>Math.random\<close> lies in \<open>[0, 1)\<close>.  Then in
  every output row whose input value of \<open>f\<close> is neither \<^verbatim>\<open>null\<close> nor \<^verbatim>\<open>undefined\<close> the value
  of \<open>f\<close> is a member of \<open>pool\<close>, and a \<^verbatim>\<open>null\<close> or \<^verbatim>\<open>undefined\<close> input value is passed
  through unchanged.
\<close>

theorem resolved_fk_is_member:
  assumes rnd: "\<forall>k. 0 \<le> rnd k \<and> rnd k < 1"
    and fd: "fd \<in> set (tableFields schema)" "relation fd = Some rel"
            "foreignKeyField rel = Some f" "f \<noteq> []"
    and pool: "idMappings (relatedTable rel) = Some pool" "pool \<noteq> []"
    and same: "\<forall>g \<in> set (tableFields schema). \<forall>rel'.
                 relation g = Some rel' \<and> foreignKeyField rel' = Some f
                 \<longrightarrow> relatedTable rel' = relatedTable rel"
    and clean: "\<forall>s. Str s \<in> set pool \<longrightarrow> \<not> includes_open s"
    and i: "i < length rws"
  shows "(row_get (rws ! i) f \<noteq> Null \<and> row_get (rws ! i) f \<noteq> Undefined \<longrightarrow>
            row_get (fst (transformForeignKeys rnd k rws schema idMappings) ! i) f \<in> set pool) \<and>
         (row_get (rws ! i) f = Null \<or> row_get (rws ! i) f = Undefined \<longrightarrow>
            row_get (fst (transformForeignKeys rnd k rws schema idMappings) ! i) f
              = row_get (rws ! i) f)"
proof -
  from transformForeignKeys_nth[OF i, of rnd k schema idMappings]
  obtain k' where out: "fst (transformForeignKeys rnd k rws schema idMappings) ! i
                          = fst (transform_row rnd schema idMappings (rws ! i, k'))"
    by blast
  have ex: "\<exists>g \<in> set (tableFields schema). \<exists>rel. relation g = Some rel \<and> foreignKeyField rel = Some f"
    using fd by blast
  have a: "row_get (fst (transform_row rnd schema idMappings (rws ! i, k'))) f \<in> set pool"
    if "row_get (rws ! i) f \<noteq> Null" "row_get (rws ! i) f \<noteq> Undefined"
    unfolding transform_row_def
    using foldl_becomes_member[where idm=idMappings and T="relatedTable rel" and pool=pool,
            OF rnd fd(4) pool clean same ex, of "(rws ! i, k')"] that
    by simp
  have b: "row_get (fst (transform_row rnd schema idMappings (rws ! i, k'))) f = row_get (rws ! i) f"
    if "row_get (rws ! i) f = Null \<or> row_get (rws ! i) f = Undefined"
    using transform_row_null[of "(rws ! i, k')" f rnd schema idMappings] that by simp
  show ?thesis unfolding out using a b by blast
qed

theorem resolved_fk_is_member_witness:
  "row_get (fst (transformForeignKeys (\<lambda>_. 1 / 2) 0 [[(''userId'', Num 999)]]
                   post_schema user_ids) ! 0) ''userId''
     \<in> set [Num 10, Num 20, Num 30]"
proof -
  have rnd: "\<forall>k::nat. (0::real) \<le> (\<lambda>_. 1 / 2) k \<and> (\<lambda>_. 1 / 2) k < (1::real)" by simp
  have fd: "user_fk \<in> set (tableFields post_schema)" by (simp add: post_schema_def)
  have rel: "relation user_fk = Some \<lparr>relatedTable = ''User'', foreignKeyField = Some ''userId''\<rparr>"
    by (simp add: user_fk_def)
  have fk: "foreignKeyField \<lparr>relatedTable = ''User'', foreignKeyField = Some ''userId''\<rparr>
              = Some ''userId''" by simp
  have ne: "''userId'' \<noteq> []" by simp
  have pool: "user_ids (relatedTable \<lparr>relatedTable = ''User'', foreignKeyField = Some ''userId''\<rparr>)
                = Some [Num 10, Num 20, Num 30]"
    by (simp add: user_ids_def)
  have pne: "[Num 10, Num 20, Num 30] \<noteq> []" by simp
  have same: "\<forall>g \<in> set (tableFields post_schema). \<forall>rel'.
                 relation g = Some rel' \<and> foreignKeyField rel' = Some ''userId''
                 \<longrightarrow> relatedTable rel'
                      = relatedTable \<lparr>relatedTable = ''User'', foreignKeyField = Some ''userId''\<rparr>"
    by (auto simp: post_schema_def user_fk_def)
  have clean: "\<forall>s. Str s \<in> set [Num 10, Num 20, Num 30] \<longrightarrow> \<not> includes_open s" by simp
  have i: "0 < length [[(''userId'', Num 999)]]" by simp
  have nn: "row_get ([[(''userId'', Num 999)]] ! 0) ''userId'' \<noteq> Null \<and>
            row_get ([[(''userId'', Num 999)]] ! 0) ''userId'' \<noteq> Undefined"
    by (simp add: row_get_def)
  from resolved_fk_is_member[where idMappings=user_ids and pool="[Num 10, Num 20, Num 30]",
         OF rnd fd rel fk ne pool pne same clean i, of 0] nn
  show ?thesis by blast
qed

text \<open>
  Claim C5 as stated fails when two relation fields share one foreign-key member and
  refer to different tables (a composite foreign key whose first column is shared): the
  second field replaces the value with an identifier of its own table.  Here
  \<^verbatim>\<open>tenantId\<close> ends as 2, which is not among the identifiers of \<^verbatim>\<open>User\<close>.
\<close>

theorem shared_fk_not_member:
  "fst (transformForeignKeys (\<lambda>_. 0) 0 [[(''tenantId'', Num 1)]] tenant_schema tenant_ids)
     = [[(''tenantId'', Num 2)]] \<and>
   tenant_ids ''User'' = Some [Num 1] \<and> Num 2 \<notin> set [Num 1]"
proof -
  have u: "tenant_ids ''User'' = Some [Num 1]" and p: "tenant_ids ''Post'' = Some [Num 2]"
    by (simp_all add: tenant_ids_def)
  have r: "resolve_placeholder tenant_ids (Num 1) = None"
    by (simp add: resolve_placeholder_def)
  have "transform_row (\<lambda>_. 0) tenant_schema tenant_ids ([(''tenantId'', Num 1)], 0)
          = ([(''tenantId'', Num 2)], 1)"
    by (simp add: transform_row_def tenant_schema_def transform_field_def truthy_str_def
          row_get_def u p r js_index_def Let_def)
  then show ?thesis using u by (simp add: Let_def)
qed

text \<open>
  Claim C10.  \<^verbatim>\<open>transformForeignKeys\<close> leaves every object of the store as it was, the
  input rows among them; each output row is a newly allocated object with the keys of its
  input row, and every member whose name is not the \<^verbatim>\<open>foreignKeyField\<close> of a relation of
  the table has the value it has in the input row.
\<close>

theorem transformForeignKeys_frame:
  "length (snd (transformForeignKeys_store rnd k store rws schema idMappings)) = length rws \<and>
   (\<forall>a < length store.
      fst (transformForeignKeys_store rnd k store rws schema idMappings) ! a = store ! a) \<and>
   (\<forall>i < length rws.
      length store \<le> snd (transformForeignKeys_store rnd k store rws schema idMappings) ! i \<and>
      snd (transformForeignKeys_store rnd k store rws schema idMappings) ! i
        < length (fst (transformForeignKeys_store rnd k store rws schema idMappings)) \<and>
      map fst (fst (transformForeignKeys_store rnd k store rws schema idMappings)
                 ! (snd (transformForeignKeys_store rnd k store rws schema idMappings) ! i))
        = map fst (store ! (rws ! i)) \<and>
      (\<forall>name.
         (\<forall>g \<in> set (tableFields schema). \<forall>rel. relation g = Some rel
            \<longrightarrow> foreignKeyField rel \<noteq> Some name) \<longrightarrow>
         row_get (fst (transformForeignKeys_store rnd k store rws schema idMappings)
                    ! (snd (transformForeignKeys_store rnd k store rws schema idMappings) ! i)) name
           = row_get (store ! (rws ! i)) name))"
proof -
  let ?ins = "map (\<lambda>a. store ! a) rws"
  let ?out = "fst (transformForeignKeys rnd k ?ins schema idMappings)"
  have st: "fst (transformForeignKeys_store rnd k store rws schema idMappings) = store @ ?out"
    and ad: "snd (transformForeignKeys_store rnd k store rws schema idMappings)
               = [length store ..< length store + length ?out]"
    by (simp_all add: transformForeignKeys_store_def Let_def)
  have len: "length ?out = length rws" by (simp add: length_transformForeignKeys)
  have one: "length store \<le> [length store ..< length store + length ?out] ! i \<and>
        [length store ..< length store + length ?out] ! i < length (store @ ?out) \<and>
        map fst ((store @ ?out) ! ([length store ..< length store + length ?out] ! i))
          = map fst (store ! (rws ! i)) \<and>
        (\<forall>name.
           (\<forall>g \<in> set (tableFields schema). \<forall>rel. relation g = Some rel
              \<longrightarrow> foreignKeyField rel \<noteq> Some name) \<longrightarrow>
           row_get ((store @ ?out) ! ([length store ..< length store + length ?out] ! i)) name
             = row_get (store ! (rws ! i)) name)"
    if i: "i < length rws" for i
  proof -
    have idx: "[length store ..< length store + length ?out] ! i = length store + i"
      using i len by simp
    have i': "i < length ?ins" using i by simp
    from transformForeignKeys_nth[OF i', of rnd k schema idMappings]
    obtain k' where o: "?out ! i = fst (transform_row rnd schema idMappings (?ins ! i, k'))"
      by blast
    have cell: "(store @ ?out) ! (length store + i) = ?out ! i" by simp
    have src: "?ins ! i = store ! (rws ! i)" using i by simp
    have keys: "map fst (?out ! i) = map fst (store ! (rws ! i))"
      unfolding o src by (simp add: transform_row_keys)
    have vals: "row_get (?out ! i) name = row_get (store ! (rws ! i)) name"
      if "\<forall>g \<in> set (tableFields schema). \<forall>rel. relation g = Some rel
              \<longrightarrow> foreignKeyField rel \<noteq> Some name" for name
      unfolding o src using transform_row_other[OF that, of rnd idMappings "(store ! (rws ! i), k')"]
      by simp
    show ?thesis unfolding idx cell using i len keys vals by simp
  qed
  have old: "(store @ ?out) ! a = store ! a" if "a < length store" for a
    using that by (simp add: nth_append)
  show ?thesis unfolding st ad using len one old by simp
qed


theorem transformForeignKeys_frame_witness:
  "fst (transformForeignKeys_store (\<lambda>_. 1 / 2) 0 sample_store [0] post_schema user_ids) ! 0
     = sample_store ! 0 \<and>
   length sample_store
     \<le> snd (transformForeignKeys_store (\<lambda>_. 1 / 2) 0 sample_store [0] post_schema user_ids) ! 0 \<and>
   row_get (fst (transformForeignKeys_store (\<lambda>_. 1 / 2) 0 sample_store [0] post_schema user_ids)
              ! (snd (transformForeignKeys_store (\<lambda>_. 1 / 2) 0 sample_store [0]
                        post_schema user_ids) ! 0)) ''title''
     = row_get (sample_store ! 0) ''title''"
proof -
  have free: "\<forall>g \<in> set (tableFields post_schema). \<forall>rel. relation g = Some rel
                \<longrightarrow> foreignKeyField rel \<noteq> Some ''title''"
    by (simp add: post_schema_def user_fk_def)
  have a: "(0::nat) < length sample_store" by (simp add: sample_store_def)
  have i: "(0::nat) < length [0::nat]" by simp
  note fr = transformForeignKeys_frame[of "\<lambda>_. 1 / 2" 0 sample_store "[0]" post_schema user_ids]
  from fr a have one: "fst (transformForeignKeys_store (\<lambda>_. 1 / 2) 0 sample_store [0]
                              post_schema user_ids) ! 0 = sample_store ! 0"
    by blast
  from fr i have two: "length sample_store
     \<le> snd (transformForeignKeys_store (\<lambda>_. 1 / 2) 0 sample_store [0] post_schema user_ids) ! 0"
    by blast
  from fr i free have three: "row_get (fst (transformForeignKeys_store (\<lambda>_. 1 / 2) 0 sample_store [0] post_schema user_ids)
              ! (snd (transformForeignKeys_store (\<lambda>_. 1 / 2) 0 sample_store [0]
                        post_schema user_ids) ! 0)) ''title''
     = row_get (sample_store ! ([0] ! 0)) ''title''"
    by blast
  show ?thesis using one two three by simp
qed

section \<open>Properties of batched insertion\<close>

lemma split_rows_total:
  assumes bs: "0 < batchSize"
  shows "\<exists>new. split_rows i batchSize rws batches = Some (batches @ new) \<and>
               concat new = drop i rws \<and> (\<forall>b \<in> set new. b \<noteq> [])"
proof (induction "length rws - i" arbitrary: i batches rule: less_induct)
  case less
  show ?case
  proof (cases "i < length rws")
    case False
    then have "split_rows i batchSize rws batches = Some batches"
      by (subst split_rows.simps) simp
    then show ?thesis using False by simp
  next
    case True
    let ?b = "take batchSize (drop i rws)"
    have step: "split_rows i batchSize rws batches
                  = split_rows (i + batchSize) batchSize rws (batches @ [?b])"
      using True by (subst split_rows.simps) simp
    have "length rws - (i + batchSize) < length rws - i" using True bs by simp
    from less.hyps[OF this, of "batches @ [?b]"]
    obtain new where n: "split_rows (i + batchSize) batchSize rws (batches @ [?b])
                           = Some ((batches @ [?b]) @ new)"
        "concat new = drop (i + batchSize) rws" "\<forall>b \<in> set new. b \<noteq> []"
      by blast
    have ne: "?b \<noteq> []" using True bs by simp
    have "concat (?b # new) = drop i rws"
      using n(2) by (simp add: add.commute[of i batchSize] drop_drop[symmetric]
                          del: drop_drop)
    then have "split_rows i batchSize rws batches = Some (batches @ (?b # new)) \<and>
               concat (?b # new) = drop i rws \<and> (\<forall>b \<in> set (?b # new). b \<noteq> [])"
      using step n(1,3) ne by simp
    then show ?thesis by blast
  qed
qed

lemma insertBatch_log:
  "batch \<noteq> [] \<Longrightarrow>
   snd (snd (insertBatch client st tname batch)) = snd st @ [INSERT tname batch]"
  by (simp add: insertBatch_def query_def Let_def split: prod.splits sum.splits)

lemma insert_batches_log:
  "\<forall>b \<in> set batches. b \<noteq> [] \<Longrightarrow>
   snd (snd (insert_batches client tname batches acc))
     = snd (snd acc) @ map (INSERT tname) batches"
proof (induction batches arbitrary: acc)
  case Nil
  then show ?case by simp
next
  case (Cons b bs)
  have b: "b \<noteq> []" and rest: "\<forall>b \<in> set bs. b \<noteq> []" using Cons.prems by simp_all
  obtain r st' where ib: "insertBatch client (snd acc) tname b = (r, st')"
    by (cases "insertBatch client (snd acc) tname b")
  have l: "snd st' = snd (snd acc) @ [INSERT tname b]"
    using insertBatch_log[OF b, of client "snd acc" tname] ib by simp
  show ?case
  proof (cases r)
    case (Inl e)
    then show ?thesis using ib l Cons.IH[OF rest] by simp
  next
    case (Inr br)
    then show ?thesis using ib l Cons.IH[OF rest] by simp
  qed
qed

lemma insertBatch_throws:
  "batch \<noteq> [] \<Longrightarrow> fst (client (fst st) (INSERT tname batch)) = Inl e \<Longrightarrow>
   fst (insertBatch client st tname batch) = Inl e"
  by (simp add: insertBatch_def query_def split: prod.splits sum.splits)

lemma insert_batches_all_throw:
  assumes "\<forall>db b. \<exists>e. fst (client db (INSERT tname b)) = Inl e"
  shows "\<forall>b \<in> set batches. b \<noteq> [] \<Longrightarrow>
     inserted (fst (insert_batches client tname batches acc)) = inserted (fst acc) \<and>
     failed (fst (insert_batches client tname batches acc))
       = failed (fst acc) + int (length (concat batches)) \<and>
     InsertResult.ids (fst (insert_batches client tname batches acc)) = InsertResult.ids (fst acc) \<and>
     length (errors (fst (insert_batches client tname batches acc)))
       = length (errors (fst acc)) + length batches"
proof (induction batches arbitrary: acc)
  case Nil
  then show ?case by simp
next
  case (Cons b bs)
  have b: "b \<noteq> []" and rest: "\<forall>b \<in> set bs. b \<noteq> []" using Cons.prems by simp_all
  from assms obtain e where "fst (client (fst (snd acc)) (INSERT tname b)) = Inl e" by blast
  then have t: "fst (insertBatch client (snd acc) tname b) = Inl e"
    using b by (rule insertBatch_throws[rotated])
  obtain st' where ib: "insertBatch client (snd acc) tname b = (Inl e, st')"
    using t by (cases "insertBatch client (snd acc) tname b") auto
  show ?case using ib Cons.IH[OF rest] by simp
qed

lemma find_id_field_None:
  "find_id_field r = None \<longleftrightarrow> (\<forall>key \<in> set (map fst r). \<not> is_id_key key)"
  by (auto simp: find_id_field_def find_None_iff)

lemma find_id_field_Some:
  assumes "find_id_field r = Some key"
  shows "\<exists>before after. map fst r = before @ key # after \<and> is_id_key key \<and>
           (\<forall>k \<in> set before. \<not> is_id_key k)"
proof -
  define keys where "keys = map fst r"
  from assms obtain i where i: "i < length keys" "is_id_key (keys ! i)"
      "key = keys ! i" "\<forall>j<i. \<not> is_id_key (keys ! j)"
    unfolding find_id_field_def find_Some_iff keys_def by blast
  have split: "keys = take i keys @ key # drop (Suc i) keys"
    unfolding i(3) by (rule id_take_nth_drop[OF i(1)])
  have "\<forall>k \<in> set (take i keys). \<not> is_id_key k"
  proof
    fix k assume "k \<in> set (take i keys)"
    then obtain j where j: "j < length (take i keys)" "k = take i keys ! j"
      by (auto simp: in_set_conv_nth)
    then have "j < i" "k = keys ! j" by simp_all
    then show "\<not> is_id_key k" using i(4) by blast
  qed
  then show ?thesis using split i(2,3) unfolding keys_def by blast
qed

lemma is_id_key_nonempty: "is_id_key key \<Longrightarrow> key \<noteq> []"
  by (auto simp: is_id_key_def ends_with_def)

lemma insertBatch_returns:
  assumes "batch \<noteq> []" "client db (INSERT tname batch) = (Inr qr, db')"
  shows "insertBatch client (db, lg) tname batch =
     (Inr \<lparr>inserted = (case rowCount qr of None \<Rightarrow> 0 | Some n \<Rightarrow> int n),
            failed = int (length batch) - (case rowCount qr of None \<Rightarrow> 0 | Some n \<Rightarrow> int n),
            errors = (if 0 < int (length batch) - (case rowCount qr of None \<Rightarrow> 0 | Some n \<Rightarrow> int n)
                      then [RowsSkipped (int (length batch)
                              - (case rowCount qr of None \<Rightarrow> 0 | Some n \<Rightarrow> int n))]
                      else []),
            ids = (case QueryResult.rows qr of
                     [] \<Rightarrow> []
                   | firstRow # rest \<Rightarrow>
                       (case find_id_field firstRow of
                          None \<Rightarrow> []
                        | Some idField \<Rightarrow> map (\<lambda>r. row_get r idField) (QueryResult.rows qr)))\<rparr>,
      (db', lg @ [INSERT tname batch]))"
proof -
  have h: "(if 0 < length (QueryResult.rows qr) then
              (case find_id_field (hd (QueryResult.rows qr)) of
                 None \<Rightarrow> []
               | Some idField \<Rightarrow>
                   if idField \<noteq> [] then map (\<lambda>r. row_get r idField) (QueryResult.rows qr)
                   else [])
            else [])
          = (case QueryResult.rows qr of
               [] \<Rightarrow> []
             | firstRow # rest \<Rightarrow>
                 (case find_id_field firstRow of
                    None \<Rightarrow> []
                  | Some idField \<Rightarrow> map (\<lambda>r. row_get r idField) (QueryResult.rows qr)))"
  proof (cases "QueryResult.rows qr")
    case Nil
    then show ?thesis by simp
  next
    case (Cons firstRow rest)
    show ?thesis
    proof (cases "find_id_field firstRow")
      case None
      then show ?thesis using Cons by simp
    next
      case (Some idField)
      then have "idField \<noteq> []"
        by (blast dest: find_id_field_Some is_id_key_nonempty)
      then show ?thesis using Cons Some by simp
    qed
  qed
  show ?thesis
    using assms h unfolding insertBatch_def query_def Let_def
    by simp
qed

lemma insertBatch_throws_state:
  assumes "batch \<noteq> []" "client db (INSERT tname batch) = (Inl e, db')"
  shows "insertBatch client (db, lg) tname batch = (Inl e, (db', lg @ [INSERT tname batch]))"
  using assms by (simp add: insertBatch_def query_def)

lemma insert_batches_run:
  assumes "\<forall>b \<in> set batches. b \<noteq> []"
  shows
    "inserted (fst (insert_batches client tname batches acc))
       = inserted (fst acc)
         + sum_list (map (\<lambda>reply. case reply of
                             Inl e \<Rightarrow> 0
                           | Inr qr \<Rightarrow> (case rowCount qr of None \<Rightarrow> 0 | Some n \<Rightarrow> int n))
                       (insert_replies client tname batches (fst (snd acc)))) \<and>
     failed (fst (insert_batches client tname batches acc))
       = failed (fst acc)
         + sum_list (map (\<lambda>(b, reply). case reply of
                             Inl e \<Rightarrow> int (length b)
                           | Inr qr \<Rightarrow> int (length b)
                                        - (case rowCount qr of None \<Rightarrow> 0 | Some n \<Rightarrow> int n))
                       (zip batches (insert_replies client tname batches (fst (snd acc))))) \<and>
     errors (fst (insert_batches client tname batches acc))
       = errors (fst acc)
         @ concat (map (\<lambda>(b, reply). case reply of
                           Inl e \<Rightarrow> [BatchFailed e]
                         | Inr qr \<Rightarrow>
                             if 0 < int (length b)
                                      - (case rowCount qr of None \<Rightarrow> 0 | Some n \<Rightarrow> int n)
                             then [RowsSkipped (int (length b)
                                      - (case rowCount qr of None \<Rightarrow> 0 | Some n \<Rightarrow> int n))]
                             else [])
                     (zip batches (insert_replies client tname batches (fst (snd acc))))) \<and>
     InsertResult.ids (fst (insert_batches client tname batches acc))
       = InsertResult.ids (fst acc)
         @ concat (map (\<lambda>reply. case reply of
                           Inl e \<Rightarrow> []
                         | Inr qr \<Rightarrow>
                             (case QueryResult.rows qr of
                                [] \<Rightarrow> []
                              | firstRow # rest \<Rightarrow>
                                  (case find_id_field firstRow of
                                     None \<Rightarrow> []
                                   | Some key \<Rightarrow> map (\<lambda>r. row_get r key) (QueryResult.rows qr))))
                     (insert_replies client tname batches (fst (snd acc))))"
  using assms
proof (induction batches arbitrary: acc)
  case Nil
  then show ?case by simp
next
  case (Cons b bs)
  have b: "b \<noteq> []" and rest: "\<forall>b \<in> set bs. b \<noteq> []" using Cons.prems by simp_all
  obtain res db lg where acc: "acc = (res, (db, lg))" by (cases acc) auto
  obtain x db' where c: "client db (INSERT tname b) = (x, db')"
    by (cases "client db (INSERT tname b)")
  show ?case
  proof (cases x)
    case (Inl e)
    have ib: "insertBatch client (db, lg) tname b = (Inl e, (db', lg @ [INSERT tname b]))"
      using insertBatch_throws_state[where client=client, OF b c[unfolded Inl]] .
    show ?thesis
      unfolding acc using ib c Inl
        Cons.IH[OF rest, of "(res\<lparr>failed := failed res + int (length b),
                                   errors := errors res @ [BatchFailed e]\<rparr>,
                              (db', lg @ [INSERT tname b]))"]
      by (simp del: diff_gt_0_iff_gt)
  next
    case (Inr qr)
    note ib = insertBatch_returns[where client=client, OF b c[unfolded Inr], of lg]
    show ?thesis
      unfolding acc using ib c Inr
        Cons.IH[OF rest, of "(res\<lparr>inserted := inserted res
                                     + (case rowCount qr of None \<Rightarrow> 0 | Some n \<Rightarrow> int n),
                                   failed := failed res + (int (length b)
                                     - (case rowCount qr of None \<Rightarrow> 0 | Some n \<Rightarrow> int n)),
                                   errors := errors res @
                                     (if 0 < int (length b)
                                        - (case rowCount qr of None \<Rightarrow> 0 | Some n \<Rightarrow> int n)
                                      then [RowsSkipped (int (length b)
                                        - (case rowCount qr of None \<Rightarrow> 0 | Some n \<Rightarrow> int n))]
                                      else []),
                                   InsertResult.ids := InsertResult.ids res @
                                     (case QueryResult.rows qr of
                                        [] \<Rightarrow> []
                                      | firstRow # rest \<Rightarrow>
                                          (case find_id_field firstRow of
                                             None \<Rightarrow> []
                                           | Some idField \<Rightarrow>
                                               map (\<lambda>r. row_get r idField) (QueryResult.rows qr)))\<rparr>,
                              (db', lg @ [INSERT tname b]))"]
      by (simp del: diff_gt_0_iff_gt)
  qed
qed

lemma insertData_run:
  assumes bs: "0 < batchSize" and ne: "rws \<noteq> []"
    and b: "fst (client db BEGIN) = Inr r"
    and c: "\<forall>db. \<exists>r. fst (client db COMMIT) = Inr r"
  shows "\<exists>batches db'.
           split_rows 0 batchSize rws [] = Some batches \<and> concat batches = rws \<and>
           (\<forall>b \<in> set batches. b \<noteq> []) \<and>
           insertData client (db, lg) tname rws batchSize
             = Some (Inr (fst (insert_batches client tname batches
                                 (empty_result, (snd (client db BEGIN), lg @ [BEGIN])))),
                     (db', lg @ [BEGIN] @ map (INSERT tname) batches @ [COMMIT]))"
proof -
  from split_rows_total[OF bs, of 0 rws "[]"]
  obtain batches where sp: "split_rows 0 batchSize rws [] = Some batches"
    and cc: "concat batches = rws" and nonempty: "\<forall>b \<in> set batches. b \<noteq> []"
    by auto
  have len: "length rws \<noteq> 0" using ne by simp
  define db1 where "db1 = snd (client db BEGIN)"
  define acc where "acc = insert_batches client tname batches (empty_result, (db1, lg @ [BEGIN]))"
  define db3 where "db3 = snd (client (fst (snd acc)) COMMIT)"
  have acc_log: "snd (snd acc) = lg @ [BEGIN] @ map (INSERT tname) batches"
    unfolding acc_def by (simp add: insert_batches_log[OF nonempty])
  have begin_ok: "insertData client (db, lg) tname rws batchSize =
          Some (case query client (snd acc) COMMIT of
                  (Inl err, st3) \<Rightarrow> rollback_and_throw client st3 err
                | (Inr _, st3) \<Rightarrow> (Inr (fst acc), st3))"
    using b len sp unfolding acc_def db1_def
    by (simp add: insertData_def query_def split_beta)
  from c obtain r' where r': "fst (client (fst (snd acc)) COMMIT) = Inr r'" by blast
  have run: "insertData client (db, lg) tname rws batchSize
          = Some (Inr (fst acc), (db3, lg @ [BEGIN] @ map (INSERT tname) batches @ [COMMIT]))"
    unfolding begin_ok using r' acc_log by (simp add: query_def db3_def split_beta)
  show ?thesis using sp cc nonempty run unfolding acc_def db1_def by blast
qed

lemma is_id_key_iff: "is_id_key key = (key = ''id'' \<or> (\<exists>p. key = p @ ''_id''))"
proof -
  have "ends_with key ''_id'' = (\<exists>p. key = p @ ''_id'')"
  proof
    assume e: "ends_with key ''_id''"
    then have "key = take (length key - 3) key @ ''_id''"
      unfolding ends_with_def by (metis append_take_drop_id length_Cons list.size(3) numeral_3_eq_3)
    then show "\<exists>p. key = p @ ''_id''" ..
  next
    assume "\<exists>p. key = p @ ''_id''"
    then show "ends_with key ''_id''" by (auto simp: ends_with_def)
  qed
  then show ?thesis by (simp add: is_id_key_def)
qed

lemma insert_replies_all_throw:
  assumes "\<forall>db b. \<exists>e. fst (client db (INSERT tname b)) = Inl e"
  shows "\<forall>reply \<in> set (insert_replies client tname batches db). \<exists>e. reply = Inl e"
proof (induction batches arbitrary: db)
  case Nil
  then show ?case by simp
next
  case (Cons b bs)
  from assms obtain e where "fst (client db (INSERT tname b)) = Inl e" by blast
  then show ?case using Cons.IH by simp
qed

lemma all_throw_messages:
  assumes "\<forall>reply \<in> set replies. \<exists>e. reply = Inl e"
  shows "\<forall>m \<in> set (concat (map (\<lambda>(b :: row list, reply). case reply of
                           Inl e \<Rightarrow> [BatchFailed e]
                         | Inr qr \<Rightarrow>
                             if 0 < int (length b)
                                      - (case rowCount qr of None \<Rightarrow> 0 | Some n \<Rightarrow> int n)
                             then [RowsSkipped (int (length b)
                                      - (case rowCount qr of None \<Rightarrow> 0 | Some n \<Rightarrow> int n))]
                             else [])
                     (zip batches replies))). \<exists>e. m = BatchFailed e"
proof
  fix m
  assume "m \<in> set (concat (map (\<lambda>(b :: row list, reply). case reply of
                           Inl e \<Rightarrow> [BatchFailed e]
                         | Inr qr \<Rightarrow>
                             if 0 < int (length b)
                                      - (case rowCount qr of None \<Rightarrow> 0 | Some n \<Rightarrow> int n)
                             then [RowsSkipped (int (length b)
                                      - (case rowCount qr of None \<Rightarrow> 0 | Some n \<Rightarrow> int n))]
                             else [])
                     (zip batches replies)))"
  then obtain b reply where br: "(b, reply) \<in> set (zip batches replies)"
    and m: "m \<in> set (case reply of
                           Inl e \<Rightarrow> [BatchFailed e]
                         | Inr qr \<Rightarrow>
                             if 0 < int (length b)
                                      - (case rowCount qr of None \<Rightarrow> 0 | Some n \<Rightarrow> int n)
                             then [RowsSkipped (int (length b)
                                      - (case rowCount qr of None \<Rightarrow> 0 | Some n \<Rightarrow> int n))]
                             else [])"
    by (auto simp del: diff_gt_0_iff_gt)
  from br have "reply \<in> set replies" by (rule set_zip_rightD)
  with assms obtain e where "reply = Inl e" by blast
  with m show "\<exists>e. m = BatchFailed e" by simp
qed

text \<open>
  Claim C3, as amended.  For a positive batch size and a non-empty row list: when
  \<^verbatim>\<open>BEGIN\<close> and \<^verbatim>\<open>COMMIT\<close> succeed, \<^verbatim>\<open>insertData\<close> returns a result whatever the batches
  do; it issues \<^verbatim>\<open>BEGIN\<close>, one \<^verbatim>\<open>INSERT\<close> for every batch of the split and \<^verbatim>\<open>COMMIT\<close>, and
  no \<^verbatim>\<open>ROLLBACK\<close>.  Every batch whose \<^verbatim>\<open>INSERT\<close> throws adds the number of its rows to
  \<^verbatim>\<open>failed\<close> and the message \<^verbatim>\<open>Batch failed\<close> with the error caught to \<^verbatim>\<open>errors\<close>, in batch
  order, and the batches after it are still attempted; a batch whose \<^verbatim>\<open>INSERT\<close> returns
  adds its row count to \<^verbatim>\<open>inserted\<close>, the rest of its rows to \<^verbatim>\<open>failed\<close> and, when that
  rest is positive, the conflict note to \<^verbatim>\<open>errors\<close>.  If every batch throws, nothing is
  inserted, all rows are counted as failed and there is one \<^verbatim>\<open>Batch failed\<close> message for
  each batch.  \<^verbatim>\<open>ROLLBACK\<close> is issued and the error leaves \<^verbatim>\<open>insertData\<close> when \<^verbatim>\<open>COMMIT\<close>
  or \<^verbatim>\<open>BEGIN\<close> throws.
\<close>

theorem batch_errors_absorbed:
  assumes bs: "0 < batchSize" and ne: "rws \<noteq> []"
  shows
   "((\<forall>db. \<exists>r. fst (client db BEGIN) = Inr r) \<and> (\<forall>db. \<exists>r. fst (client db COMMIT) = Inr r) \<longrightarrow>
       (\<exists>res db' batches.
          insertData client (db, lg) tname rws batchSize
            = Some (Inr res, (db', lg @ [BEGIN] @ map (INSERT tname) batches @ [COMMIT])) \<and>
          split_rows 0 batchSize rws [] = Some batches \<and>
          concat batches = rws \<and>
          inserted res
            = sum_list (map (\<lambda>reply. case reply of
                               Inl e \<Rightarrow> 0
                             | Inr qr \<Rightarrow> (case rowCount qr of None \<Rightarrow> 0 | Some n \<Rightarrow> int n))
                          (insert_replies client tname batches (snd (client db BEGIN)))) \<and>
          failed res
            = sum_list (map (\<lambda>(b, reply). case reply of
                               Inl e \<Rightarrow> int (length b)
                             | Inr qr \<Rightarrow> int (length b)
                                 - (case rowCount qr of None \<Rightarrow> 0 | Some n \<Rightarrow> int n))
                          (zip batches (insert_replies client tname batches
                                          (snd (client db BEGIN))))) \<and>
          errors res
            = concat (map (\<lambda>(b, reply). case reply of
                             Inl e \<Rightarrow> [BatchFailed e]
                           | Inr qr \<Rightarrow>
                               if 0 < int (length b)
                                        - (case rowCount qr of None \<Rightarrow> 0 | Some n \<Rightarrow> int n)
                               then [RowsSkipped (int (length b)
                                        - (case rowCount qr of None \<Rightarrow> 0 | Some n \<Rightarrow> int n))]
                               else [])
                        (zip batches (insert_replies client tname batches
                                        (snd (client db BEGIN))))) \<and>
          ((\<forall>db b. \<exists>e. fst (client db (INSERT tname b)) = Inl e) \<longrightarrow>
             inserted res = 0 \<and> failed res = int (length rws) \<and> InsertResult.ids res = [] \<and>
             length (errors res) = length batches \<and>
             (\<forall>m \<in> set (errors res). \<exists>e. m = BatchFailed e)))) \<and>
    ((\<forall>db. \<exists>r. fst (client db BEGIN) = Inr r) \<and> (\<forall>db. fst (client db COMMIT) = Inl e) \<and>
     (\<forall>db. \<exists>r. fst (client db ROLLBACK) = Inr r) \<longrightarrow>
       (\<exists>db' batches.
          insertData client (db, lg) tname rws batchSize
            = Some (Inl e, (db', lg @ [BEGIN] @ map (INSERT tname) batches @ [COMMIT, ROLLBACK])))) \<and>
    (fst (client db BEGIN) = Inl e \<and> (\<forall>db. \<exists>r. fst (client db ROLLBACK) = Inr r) \<longrightarrow>
       (\<exists>db'. insertData client (db, lg) tname rws batchSize
                = Some (Inl e, (db', lg @ [BEGIN, ROLLBACK]))))"
proof -
  from split_rows_total[OF bs, of 0 rws "[]"]
  obtain batches where sp: "split_rows 0 batchSize rws [] = Some batches"
    and cc: "concat batches = rws" and nonempty: "\<forall>b \<in> set batches. b \<noteq> []"
    by auto
  have len: "length rws \<noteq> 0" using ne by simp
  define db1 where "db1 = snd (client db BEGIN)"
  define acc where "acc = insert_batches client tname batches (empty_result, (db1, lg @ [BEGIN]))"
  define db3 where "db3 = snd (client (fst (snd acc)) COMMIT)"
  define db4 where "db4 = snd (client db3 ROLLBACK)"
  have acc_log: "snd (snd acc) = lg @ [BEGIN] @ map (INSERT tname) batches"
    unfolding acc_def by (simp add: insert_batches_log[OF nonempty])
  have begin_ok: "insertData client (db, lg) tname rws batchSize =
          Some (case query client (snd acc) COMMIT of
                  (Inl err, st3) \<Rightarrow> rollback_and_throw client st3 err
                | (Inr _, st3) \<Rightarrow> (Inr (fst acc), st3))"
    if "fst (client db BEGIN) = Inr r" for r
    using that len sp unfolding acc_def db1_def
    by (simp add: insertData_def query_def split_beta)
  note book = insert_batches_run[OF nonempty, of client tname "(empty_result, (db1, lg @ [BEGIN]))",
                folded acc_def]
  have b1: "inserted (fst acc)
            = sum_list (map (\<lambda>reply. case reply of
                               Inl e \<Rightarrow> 0
                             | Inr qr \<Rightarrow> (case rowCount qr of None \<Rightarrow> 0 | Some n \<Rightarrow> int n))
                          (insert_replies client tname batches db1))"
    using book[THEN conjunct1] by (simp add: empty_result_def)
  have b2: "failed (fst acc)
            = sum_list (map (\<lambda>(b, reply). case reply of
                               Inl e \<Rightarrow> int (length b)
                             | Inr qr \<Rightarrow> int (length b)
                                 - (case rowCount qr of None \<Rightarrow> 0 | Some n \<Rightarrow> int n))
                          (zip batches (insert_replies client tname batches db1)))"
    using book[THEN conjunct2, THEN conjunct1] by (simp add: empty_result_def)
  have b3: "errors (fst acc)
            = concat (map (\<lambda>(b, reply). case reply of
                             Inl e \<Rightarrow> [BatchFailed e]
                           | Inr qr \<Rightarrow>
                               if 0 < int (length b)
                                        - (case rowCount qr of None \<Rightarrow> 0 | Some n \<Rightarrow> int n)
                               then [RowsSkipped (int (length b)
                                        - (case rowCount qr of None \<Rightarrow> 0 | Some n \<Rightarrow> int n))]
                               else [])
                        (zip batches (insert_replies client tname batches db1)))"
    using book[THEN conjunct2, THEN conjunct2, THEN conjunct1]
    by (simp add: empty_result_def del: diff_gt_0_iff_gt)
  have A: "\<exists>res db' batches.
          insertData client (db, lg) tname rws batchSize
            = Some (Inr res, (db', lg @ [BEGIN] @ map (INSERT tname) batches @ [COMMIT])) \<and>
          split_rows 0 batchSize rws [] = Some batches \<and>
          concat batches = rws \<and>
          inserted res
            = sum_list (map (\<lambda>reply. case reply of
                               Inl e \<Rightarrow> 0
                             | Inr qr \<Rightarrow> (case rowCount qr of None \<Rightarrow> 0 | Some n \<Rightarrow> int n))
                          (insert_replies client tname batches (snd (client db BEGIN)))) \<and>
          failed res
            = sum_list (map (\<lambda>(b, reply). case reply of
                               Inl e \<Rightarrow> int (length b)
                             | Inr qr \<Rightarrow> int (length b)
                                 - (case rowCount qr of None \<Rightarrow> 0 | Some n \<Rightarrow> int n))
                          (zip batches (insert_replies client tname batches
                                          (snd (client db BEGIN))))) \<and>
          errors res
            = concat (map (\<lambda>(b, reply). case reply of
                             Inl e \<Rightarrow> [BatchFailed e]
                           | Inr qr \<Rightarrow>
                               if 0 < int (length b)
                                        - (case rowCount qr of None \<Rightarrow> 0 | Some n \<Rightarrow> int n)
                               then [RowsSkipped (int (length b)
                                        - (case rowCount qr of None \<Rightarrow> 0 | Some n \<Rightarrow> int n))]
                               else [])
                        (zip batches (insert_replies client tname batches
                                        (snd (client db BEGIN))))) \<and>
          ((\<forall>db b. \<exists>e. fst (client db (INSERT tname b)) = Inl e) \<longrightarrow>
             inserted res = 0 \<and> failed res = int (length rws) \<and> InsertResult.ids res = [] \<and>
             length (errors res) = length batches \<and>
             (\<forall>m \<in> set (errors res). \<exists>e. m = BatchFailed e))"
    if b: "\<forall>db. \<exists>r. fst (client db BEGIN) = Inr r" and c: "\<forall>db. \<exists>r. fst (client db COMMIT) = Inr r"
  proof -
    from b obtain r where r: "fst (client db BEGIN) = Inr r" by blast
    from c obtain r' where r': "fst (client (fst (snd acc)) COMMIT) = Inr r'" by blast
    have run: "insertData client (db, lg) tname rws batchSize
            = Some (Inr (fst acc), (db3, lg @ [BEGIN] @ map (INSERT tname) batches @ [COMMIT]))"
      unfolding begin_ok[OF r] using r' acc_log by (simp add: query_def db3_def split_beta)
    have cnt: "inserted (fst acc) = 0 \<and> failed (fst acc) = int (length rws) \<and>
               InsertResult.ids (fst acc) = [] \<and> length (errors (fst acc)) = length batches \<and>
               (\<forall>m \<in> set (errors (fst acc)). \<exists>e. m = BatchFailed e)"
      if t: "\<forall>db b. \<exists>e. fst (client db (INSERT tname b)) = Inl e"
    proof -
      have "inserted (fst acc) = 0 \<and> failed (fst acc) = int (length rws) \<and>
               InsertResult.ids (fst acc) = [] \<and> length (errors (fst acc)) = length batches"
        using insert_batches_all_throw[OF t nonempty, of "(empty_result, (db1, lg @ [BEGIN]))"]
        unfolding acc_def by (simp add: cc empty_result_def)
      moreover have "\<forall>m \<in> set (errors (fst acc)). \<exists>e. m = BatchFailed e"
        unfolding b3 by (rule all_throw_messages[OF insert_replies_all_throw[OF t]])
      ultimately show ?thesis by blast
    qed
    show ?thesis
      using run sp cc b1 b2 b3 cnt unfolding db1_def by blast
  qed
  have B: "\<exists>db' batches.
          insertData client (db, lg) tname rws batchSize
            = Some (Inl e, (db', lg @ [BEGIN] @ map (INSERT tname) batches @ [COMMIT, ROLLBACK]))"
    if b: "\<forall>db. \<exists>r. fst (client db BEGIN) = Inr r" and c: "\<forall>db. fst (client db COMMIT) = Inl e"
      and rb: "\<forall>db. \<exists>r. fst (client db ROLLBACK) = Inr r"
  proof -
    from b obtain r where r: "fst (client db BEGIN) = Inr r" by blast
    from rb obtain r' where r': "fst (client db3 ROLLBACK) = Inr r'" by blast
    have "insertData client (db, lg) tname rws batchSize
            = Some (Inl e, (db4, lg @ [BEGIN] @ map (INSERT tname) batches @ [COMMIT, ROLLBACK]))"
      unfolding begin_ok[OF r] using c r' acc_log
      by (simp add: query_def rollback_and_throw_def db3_def db4_def split_beta)
    then show ?thesis by blast
  qed
  have C: "\<exists>db'. insertData client (db, lg) tname rws batchSize
                = Some (Inl e, (db', lg @ [BEGIN, ROLLBACK]))"
    if b: "fst (client db BEGIN) = Inl e" and rb: "\<forall>db. \<exists>r. fst (client db ROLLBACK) = Inr r"
  proof -
    from rb obtain r' where r': "fst (client db1 ROLLBACK) = Inr r'" by blast
    have "insertData client (db, lg) tname rws batchSize
            = Some (Inl e, (snd (client db1 ROLLBACK), lg @ [BEGIN, ROLLBACK]))"
      using b r' len sp
      by (simp add: insertData_def query_def rollback_and_throw_def db1_def split_beta)
    then show ?thesis by blast
  qed
  show ?thesis using A B C by blast
qed

lemma split_three:
  "split_rows 0 2 [[(''id'', Num 1)], [(''id'', Num 2)], [(''id'', Num 3)]] []
     = Some [[[(''id'', Num 1)], [(''id'', Num 2)]], [[(''id'', Num 3)]]]"
  by code_simp

theorem batch_errors_absorbed_witness:
  "(\<exists>res db' batches.
      insertData (throws_on is_insert) ((), []) ''T'' three_rows 2
        = Some (Inr res, (db', [] @ [BEGIN] @ map (INSERT ''T'') batches @ [COMMIT])) \<and>
      concat batches = three_rows \<and> inserted res = 0 \<and> failed res = 3) \<and>
   (\<exists>res db'.
      insertData fails_after_first (0, []) ''T'' three_rows 2
        = Some (Inr res,
                (db', [] @ [BEGIN]
                        @ map (INSERT ''T'') [take 2 three_rows, drop 2 three_rows] @ [COMMIT])) \<and>
      inserted res = 2 \<and> failed res = 1 \<and> errors res = [BatchFailed ''boom'']) \<and>
   (\<exists>db' batches.
      insertData (throws_on (\<lambda>c. c = COMMIT)) ((), []) ''T'' three_rows 2
        = Some (Inl ''boom'',
                (db', [] @ [BEGIN] @ map (INSERT ''T'') batches @ [COMMIT, ROLLBACK]))) \<and>
   (\<exists>db'. insertData (throws_on (\<lambda>c. c = BEGIN)) ((), []) ''T'' three_rows 2
            = Some (Inl ''boom'', (db', [] @ [BEGIN, ROLLBACK])))"
proof -
  have bs: "(0::nat) < 2" by simp
  have ne: "three_rows \<noteq> []" by (simp add: three_rows_def)
  have len: "int (length three_rows) = 3" by (simp add: three_rows_def)
  note t = batch_errors_absorbed[OF bs ne, where tname="''T''" and db="()" and lg="[]"
             and e="''boom''"]
  have a: "(\<forall>db. \<exists>r. fst (throws_on is_insert db BEGIN) = Inr r) \<and>
           (\<forall>db. \<exists>r. fst (throws_on is_insert db COMMIT) = Inr r)"
    by (simp add: throws_on_def)
  have a': "\<forall>db b. \<exists>e. fst (throws_on is_insert db (INSERT ''T'' b)) = Inl e"
    by (simp add: throws_on_def)
  from t[of "throws_on is_insert", THEN conjunct1, rule_format, OF a]
  obtain res0 db0 batches0 where run0:
      "insertData (throws_on is_insert) ((), []) ''T'' three_rows 2
         = Some (Inr res0, (db0, [] @ [BEGIN] @ map (INSERT ''T'') batches0 @ [COMMIT]))"
    and cc0: "concat batches0 = three_rows"
    and all0: "(\<forall>db b. \<exists>e. fst (throws_on is_insert db (INSERT ''T'' b)) = Inl e) \<longrightarrow>
             inserted res0 = 0 \<and> failed res0 = int (length three_rows) \<and>
             InsertResult.ids res0 = [] \<and> length (errors res0) = length batches0 \<and>
             (\<forall>m \<in> set (errors res0). \<exists>e. m = BatchFailed e)"
    by (elim exE conjE) (rule that)
  from all0[THEN mp, OF a'] have "inserted res0 = 0" "failed res0 = 3"
    using len by simp_all
  with run0 cc0 have A: "\<exists>res db' batches.
      insertData (throws_on is_insert) ((), []) ''T'' three_rows 2
        = Some (Inr res, (db', [] @ [BEGIN] @ map (INSERT ''T'') batches @ [COMMIT])) \<and>
      concat batches = three_rows \<and> inserted res = 0 \<and> failed res = 3"
    by (intro exI[of _ res0] exI[of _ db0] exI[of _ batches0] conjI)
  have f: "(\<forall>db. \<exists>r. fst (fails_after_first db BEGIN) = Inr r) \<and>
           (\<forall>db. \<exists>r. fst (fails_after_first db COMMIT) = Inr r)"
    by (simp add: fails_after_first_def)
  from batch_errors_absorbed[OF bs ne, where client=fails_after_first and tname="''T''"
         and db=0 and lg="[]", THEN conjunct1, rule_format, OF f]
  obtain res db' batches where run:
      "insertData fails_after_first (0, []) ''T'' three_rows 2
         = Some (Inr res, (db', [] @ [BEGIN] @ map (INSERT ''T'') batches @ [COMMIT]))"
    and sp: "split_rows 0 2 three_rows [] = Some batches"
    and i: "inserted res
            = sum_list (map (\<lambda>reply. case reply of
                               Inl e \<Rightarrow> 0
                             | Inr qr \<Rightarrow> (case rowCount qr of None \<Rightarrow> 0 | Some n \<Rightarrow> int n))
                          (insert_replies fails_after_first ''T'' batches
                             (snd (fails_after_first 0 BEGIN))))"
    and fl: "failed res
            = sum_list (map (\<lambda>(b, reply). case reply of
                               Inl e \<Rightarrow> int (length b)
                             | Inr qr \<Rightarrow> int (length b)
                                 - (case rowCount qr of None \<Rightarrow> 0 | Some n \<Rightarrow> int n))
                          (zip batches (insert_replies fails_after_first ''T'' batches
                                          (snd (fails_after_first 0 BEGIN)))))"
    and er: "errors res
            = concat (map (\<lambda>(b, reply). case reply of
                             Inl e \<Rightarrow> [BatchFailed e]
                           | Inr qr \<Rightarrow>
                               if 0 < int (length b)
                                        - (case rowCount qr of None \<Rightarrow> 0 | Some n \<Rightarrow> int n)
                               then [RowsSkipped (int (length b)
                                        - (case rowCount qr of None \<Rightarrow> 0 | Some n \<Rightarrow> int n))]
                               else [])
                        (zip batches (insert_replies fails_after_first ''T'' batches
                                        (snd (fails_after_first 0 BEGIN)))))"
    by (elim exE conjE) (rule that)
  have batches: "batches = [take 2 three_rows, drop 2 three_rows]"
    using sp split_three by (simp add: three_rows_def)
  have replies: "insert_replies fails_after_first ''T'' [take 2 three_rows, drop 2 three_rows]
                   (snd (fails_after_first 0 BEGIN))
                 = [Inr \<lparr>rowCount = Some 2, QueryResult.rows = take 2 three_rows\<rparr>, Inl ''boom'']"
    by (simp add: fails_after_first_def three_rows_def)
  have F: "\<exists>res db'.
      insertData fails_after_first (0, []) ''T'' three_rows 2
        = Some (Inr res,
                (db', [] @ [BEGIN]
                        @ map (INSERT ''T'') [take 2 three_rows, drop 2 three_rows] @ [COMMIT])) \<and>
      inserted res = 2 \<and> failed res = 1 \<and> errors res = [BatchFailed ''boom'']"
  proof (intro exI[of _ res] exI[of _ db'] conjI)
    show "insertData fails_after_first (0, []) ''T'' three_rows 2
        = Some (Inr res,
                (db', [] @ [BEGIN]
                        @ map (INSERT ''T'') [take 2 three_rows, drop 2 three_rows] @ [COMMIT]))"
      using run unfolding batches .
    show "inserted res = 2" unfolding i batches replies by simp
    show "failed res = 1" unfolding fl batches replies by (simp add: three_rows_def)
    show "errors res = [BatchFailed ''boom'']"
      unfolding er batches replies by (simp add: three_rows_def)
  qed
  have b: "(\<forall>db. \<exists>r. fst (throws_on (\<lambda>c. c = COMMIT) db BEGIN) = Inr r) \<and>
           (\<forall>db. fst (throws_on (\<lambda>c. c = COMMIT) db COMMIT) = Inl ''boom'') \<and>
           (\<forall>db. \<exists>r. fst (throws_on (\<lambda>c. c = COMMIT) db ROLLBACK) = Inr r)"
    by (simp add: throws_on_def)
  have B: "\<exists>db' batches.
      insertData (throws_on (\<lambda>c. c = COMMIT)) ((), []) ''T'' three_rows 2
        = Some (Inl ''boom'',
                (db', [] @ [BEGIN] @ map (INSERT ''T'') batches @ [COMMIT, ROLLBACK]))"
    using t[of "throws_on (\<lambda>c. c = COMMIT)", THEN conjunct2, THEN conjunct1, rule_format, OF b] .
  have c: "fst (throws_on (\<lambda>c. c = BEGIN) () BEGIN) = Inl ''boom'' \<and>
           (\<forall>db. \<exists>r. fst (throws_on (\<lambda>c. c = BEGIN) db ROLLBACK) = Inr r)"
    by (simp add: throws_on_def)
  have C: "\<exists>db'. insertData (throws_on (\<lambda>c. c = BEGIN)) ((), []) ''T'' three_rows 2
            = Some (Inl ''boom'', (db', [] @ [BEGIN, ROLLBACK]))"
    using t[of "throws_on (\<lambda>c. c = BEGIN)", THEN conjunct2, THEN conjunct2, rule_format, OF c] .
  show ?thesis by (rule conjI[OF A conjI[OF F conjI[OF B C]]])
qed

text \<open>
  Claim C3 as stated fails: with a connection on which every \<^verbatim>\<open>INSERT\<close> throws,
  \<^verbatim>\<open>insertData\<close> returns a result (no error leaves it), both batches are attempted and
  the statements issued end with \<^verbatim>\<open>COMMIT\<close>; there is no \<^verbatim>\<open>ROLLBACK\<close>.
\<close>

theorem batch_error_swallowed:
  "insertData (throws_on is_insert) ((), []) ''T'' three_rows 2
     = Some (Inr \<lparr>inserted = 0, failed = 3,
                   errors = [BatchFailed ''boom'', BatchFailed ''boom''], ids = []\<rparr>,
             ((), [BEGIN, INSERT ''T'' (take 2 three_rows), INSERT ''T'' (drop 2 three_rows),
                   COMMIT]))"
  by (simp add: insertData_def split_three query_def throws_on_def insertBatch_def
        empty_result_def three_rows_def)

lemma insertBatch_no_ids:
  assumes "\<forall>db b qr firstRow rest.
             fst (client db (INSERT tname b)) = Inr qr \<and> QueryResult.rows qr = firstRow # rest
             \<longrightarrow> (\<forall>key \<in> set (map fst firstRow). \<not> is_id_key key)"
    and "insertBatch client st tname batch = (Inr br, st2)"
  shows "InsertResult.ids br = []"
proof (cases "batch = []")
  case True
  then show ?thesis using assms(2) by (auto simp: insertBatch_def empty_result_def)
next
  case False
  obtain x db' where c: "client (fst st) (INSERT tname batch) = (x, db')"
    by (cases "client (fst st) (INSERT tname batch)")
  show ?thesis
  proof (cases x)
    case (Inl e)
    then show ?thesis using assms(2) c False
      by (simp add: insertBatch_def query_def)
  next
    case (Inr qr)
    have r: "insertBatch client (fst st, snd st) tname batch = (Inr br, st2)"
      using assms(2) by simp
    have none: "find_id_field firstRow = None" if "QueryResult.rows qr = firstRow # rest"
      for firstRow rest
      using assms(1) c Inr that unfolding find_id_field_None
      by (metis fst_conv)
    show ?thesis
      using r unfolding insertBatch_returns[where client=client, OF False c[unfolded Inr]]
      by (auto split: list.splits simp: none)
  qed
qed

lemma insert_batches_no_ids:
  assumes "\<forall>db b qr firstRow rest.
             fst (client db (INSERT tname b)) = Inr qr \<and> QueryResult.rows qr = firstRow # rest
             \<longrightarrow> (\<forall>key \<in> set (map fst firstRow). \<not> is_id_key key)"
  shows "InsertResult.ids (fst (insert_batches client tname batches acc)) = InsertResult.ids (fst acc)"
proof (induction batches arbitrary: acc)
  case Nil
  then show ?case by simp
next
  case (Cons b bs)
  obtain x st2 where ib: "insertBatch client (snd acc) tname b = (x, st2)"
    by (cases "insertBatch client (snd acc) tname b")
  show ?case
  proof (cases x)
    case (Inl e)
    then show ?thesis using ib Cons.IH by simp
  next
    case (Inr br)
    have "InsertResult.ids br = []" using insertBatch_no_ids[OF assms] ib Inr by blast
    then show ?thesis using ib Inr Cons.IH by simp
  qed
qed

lemma insertData_result:
  assumes "insertData client st tname rws batchSize = Some (Inr res, st')"
  shows "res = empty_result \<or>
         (\<exists>batches st1. res = fst (insert_batches client tname batches (empty_result, st1)))"
proof (cases "length rws = 0")
  case True
  then show ?thesis using assms by (simp add: insertData_def)
next
  case False
  then obtain batches where sp: "split_rows 0 batchSize rws [] = Some batches"
    using assms by (auto simp: insertData_def split: option.splits)
  have nothrow: "rollback_and_throw client s e \<noteq> (Inr res, st')" for s e
    by (simp add: rollback_and_throw_def split_beta split: sum.splits)
  define q1 where "q1 = query client st BEGIN"
  define acc where "acc = insert_batches client tname batches (empty_result, snd q1)"
  define q3 where "q3 = query client (snd acc) COMMIT"
  have run: "(case fst q1 of
                Inl err \<Rightarrow> rollback_and_throw client (snd q1) err
              | Inr _ \<Rightarrow>
                  (case fst q3 of
                     Inl err \<Rightarrow> rollback_and_throw client (snd q3) err
                   | Inr _ \<Rightarrow> (Inr (fst acc), snd q3))) = (Inr res, st')"
    using assms False sp unfolding q1_def acc_def q3_def insertData_def split_beta
    by simp
  have "res = fst acc"
  proof (cases "fst q1")
    case (Inl e)
    then show ?thesis using run nothrow by simp
  next
    case r1: (Inr x)
    show ?thesis
    proof (cases "fst q3")
      case (Inl e)
      then show ?thesis using run r1 nothrow by simp
    next
      case (Inr y)
      then show ?thesis using run r1 by simp
    qed
  qed
  then show ?thesis unfolding acc_def by blast
qed

text \<open>
  Claim C9.  When the \<^verbatim>\<open>INSERT\<close> of a batch returns rows, the identifiers of the batch
  are empty if no key of the first returned row is \<^verbatim>\<open>id\<close> or ends with \<^verbatim>\<open>_id\<close>;
  otherwise they are the values, in every returned row, of the first such key of the
  first returned row.  A result of \<^verbatim>\<open>insertData\<close> has no identifiers when no
  \<^verbatim>\<open>INSERT\<close> returns such a column, however many rows were inserted.  For a positive
  batch size and a non-empty row list, when \<^verbatim>\<open>BEGIN\<close> and \<^verbatim>\<open>COMMIT\<close> succeed, the
  identifiers in the result of \<^verbatim>\<open>insertData\<close> are those harvested from the answers to the
  \<^verbatim>\<open>INSERT\<close> statements of its batches, in batch order: none for a batch that throws or
  returns no row, and otherwise the values of the key found in the first returned row,
  which is the first key that is \<^verbatim>\<open>id\<close> or ends with \<^verbatim>\<open>_id\<close>.
\<close>

theorem ids_from_id_like_column:
  "(batch \<noteq> [] \<and> client db (INSERT tname batch) = (Inr qr, db') \<longrightarrow>
      (\<exists>res. insertBatch client (db, lg) tname batch
                = (Inr res, (db', lg @ [INSERT tname batch])) \<and>
         inserted res = (case rowCount qr of None \<Rightarrow> 0 | Some n \<Rightarrow> int n) \<and>
         (QueryResult.rows qr = [] \<longrightarrow> InsertResult.ids res = []) \<and>
         (\<forall>firstRow rest. QueryResult.rows qr = firstRow # rest \<longrightarrow>
            ((\<forall>key \<in> set (map fst firstRow). \<not> is_id_key key) \<longrightarrow> InsertResult.ids res = []) \<and>
            ((\<exists>key \<in> set (map fst firstRow). is_id_key key) \<longrightarrow>
               (\<exists>before key after.
                  map fst firstRow = before @ key # after \<and> is_id_key key \<and>
                  (\<forall>k \<in> set before. \<not> is_id_key k) \<and>
                  InsertResult.ids res = map (\<lambda>r. row_get r key) (QueryResult.rows qr)))))) \<and>
   (insertData client st tname rws batchSize = Some (Inr res', st') \<and>
    (\<forall>db b qr firstRow rest.
       fst (client db (INSERT tname b)) = Inr qr \<and> QueryResult.rows qr = firstRow # rest
       \<longrightarrow> (\<forall>key \<in> set (map fst firstRow). \<not> is_id_key key))
    \<longrightarrow> InsertResult.ids res' = []) \<and>
   (0 < batchSize \<and> rws \<noteq> [] \<and>
    (\<forall>db. \<exists>r. fst (client db BEGIN) = Inr r) \<and> (\<forall>db. \<exists>r. fst (client db COMMIT) = Inr r)
    \<longrightarrow> (\<exists>res db2 batches.
           insertData client (db1, lg1) tname rws batchSize
             = Some (Inr res, (db2, lg1 @ [BEGIN] @ map (INSERT tname) batches @ [COMMIT])) \<and>
           split_rows 0 batchSize rws [] = Some batches \<and>
           concat batches = rws \<and>
           InsertResult.ids res
             = concat (map (\<lambda>reply. case reply of
                              Inl e \<Rightarrow> []
                            | Inr qr \<Rightarrow>
                                (case QueryResult.rows qr of
                                   [] \<Rightarrow> []
                                 | firstRow # rest \<Rightarrow>
                                     (case find_id_field firstRow of
                                        None \<Rightarrow> []
                                      | Some key \<Rightarrow>
                                          map (\<lambda>r. row_get r key) (QueryResult.rows qr))))
                         (insert_replies client tname batches (snd (client db1 BEGIN)))))) \<and>
   (find_id_field returned = None \<longleftrightarrow> (\<forall>key \<in> set (map fst returned). \<not> is_id_key key)) \<and>
   (find_id_field returned = Some idField \<longrightarrow>
      (\<exists>before after. map fst returned = before @ idField # after \<and> is_id_key idField \<and>
         (\<forall>k \<in> set before. \<not> is_id_key k))) \<and>
   (is_id_key column \<longleftrightarrow> column = ''id'' \<or> (\<exists>p. column = p @ ''_id''))"
proof (intro conjI impI)
  assume a: "batch \<noteq> [] \<and> client db (INSERT tname batch) = (Inr qr, db')"
  let ?res = "\<lparr>inserted = (case rowCount qr of None \<Rightarrow> 0 | Some n \<Rightarrow> int n),
            failed = int (length batch) - (case rowCount qr of None \<Rightarrow> 0 | Some n \<Rightarrow> int n),
            errors = (if 0 < int (length batch) - (case rowCount qr of None \<Rightarrow> 0 | Some n \<Rightarrow> int n)
                      then [RowsSkipped (int (length batch)
                              - (case rowCount qr of None \<Rightarrow> 0 | Some n \<Rightarrow> int n))]
                      else []),
            ids = (case QueryResult.rows qr of
                     [] \<Rightarrow> []
                   | firstRow # rest \<Rightarrow>
                       (case find_id_field firstRow of
                          None \<Rightarrow> []
                        | Some idField \<Rightarrow> map (\<lambda>r. row_get r idField) (QueryResult.rows qr)))\<rparr>"
  have run: "insertBatch client (db, lg) tname batch = (Inr ?res, (db', lg @ [INSERT tname batch]))"
    using a by (simp add: insertBatch_returns)
  have none: "InsertResult.ids ?res = []"
    if "QueryResult.rows qr = firstRow # rest" "\<forall>key \<in> set (map fst firstRow). \<not> is_id_key key"
    for firstRow rest
    using that find_id_field_None[of firstRow] by simp
  have some: "\<exists>before key after.
                  map fst firstRow = before @ key # after \<and> is_id_key key \<and>
                  (\<forall>k \<in> set before. \<not> is_id_key k) \<and>
                  InsertResult.ids ?res = map (\<lambda>r. row_get r key) (QueryResult.rows qr)"
    if r: "QueryResult.rows qr = firstRow # rest" and k: "\<exists>key \<in> set (map fst firstRow). is_id_key key"
    for firstRow rest
  proof -
    from k have "find_id_field firstRow \<noteq> None" unfolding find_id_field_None by blast
    then obtain key where key: "find_id_field firstRow = Some key" by auto
    from find_id_field_Some[OF key] obtain before after where
      "map fst firstRow = before @ key # after" "is_id_key key" "\<forall>k \<in> set before. \<not> is_id_key k"
      by blast
    moreover have "InsertResult.ids ?res = map (\<lambda>r. row_get r key) (QueryResult.rows qr)"
      using r key by simp
    ultimately show ?thesis by blast
  qed
  have empty: "QueryResult.rows qr = [] \<longrightarrow> InsertResult.ids ?res = []" by simp
  show "\<exists>res. insertBatch client (db, lg) tname batch
                = (Inr res, (db', lg @ [INSERT tname batch])) \<and>
         inserted res = (case rowCount qr of None \<Rightarrow> 0 | Some n \<Rightarrow> int n) \<and>
         (QueryResult.rows qr = [] \<longrightarrow> InsertResult.ids res = []) \<and>
         (\<forall>firstRow rest. QueryResult.rows qr = firstRow # rest \<longrightarrow>
            ((\<forall>key \<in> set (map fst firstRow). \<not> is_id_key key) \<longrightarrow> InsertResult.ids res = []) \<and>
            ((\<exists>key \<in> set (map fst firstRow). is_id_key key) \<longrightarrow>
               (\<exists>before key after.
                  map fst firstRow = before @ key # after \<and> is_id_key key \<and>
                  (\<forall>k \<in> set before. \<not> is_id_key k) \<and>
                  InsertResult.ids res = map (\<lambda>r. row_get r key) (QueryResult.rows qr))))"
  proof (intro exI[of _ ?res] conjI allI impI)
    show "insertBatch client (db, lg) tname batch = (Inr ?res, db', lg @ [INSERT tname batch])"
      by (rule run)
  qed (use none some empty in \<open>simp_all\<close>)
next
  assume a: "insertData client st tname rws batchSize = Some (Inr res', st') \<and>
    (\<forall>db b qr firstRow rest.
       fst (client db (INSERT tname b)) = Inr qr \<and> QueryResult.rows qr = firstRow # rest
       \<longrightarrow> (\<forall>key \<in> set (map fst firstRow). \<not> is_id_key key))"
  then have h: "\<forall>db b qr firstRow rest.
       fst (client db (INSERT tname b)) = Inr qr \<and> QueryResult.rows qr = firstRow # rest
       \<longrightarrow> (\<forall>key \<in> set (map fst firstRow). \<not> is_id_key key)" by blast
  from a insertData_result[of client st tname rws batchSize res' st']
  have "res' = empty_result \<or>
         (\<exists>batches st1. res' = fst (insert_batches client tname batches (empty_result, st1)))"
    by blast
  then show "InsertResult.ids res' = []"
    using insert_batches_no_ids[OF h] by (auto simp: empty_result_def)
next
  assume a: "0 < batchSize \<and> rws \<noteq> [] \<and>
    (\<forall>db. \<exists>r. fst (client db BEGIN) = Inr r) \<and> (\<forall>db. \<exists>r. fst (client db COMMIT) = Inr r)"
  then have bs: "0 < batchSize" and ne: "rws \<noteq> []"
    and c: "\<forall>db. \<exists>r. fst (client db COMMIT) = Inr r" by simp_all
  from a obtain r where r: "fst (client db1 BEGIN) = Inr r" by blast
  from insertData_run[OF bs ne r c, of lg1 tname]
  obtain batches db2 where sp: "split_rows 0 batchSize rws [] = Some batches"
    and cc: "concat batches = rws" and nonempty: "\<forall>b \<in> set batches. b \<noteq> []"
    and run: "insertData client (db1, lg1) tname rws batchSize
             = Some (Inr (fst (insert_batches client tname batches
                                 (empty_result, (snd (client db1 BEGIN), lg1 @ [BEGIN])))),
                     (db2, lg1 @ [BEGIN] @ map (INSERT tname) batches @ [COMMIT]))"
    by (elim exE conjE) (rule that)
  have ids: "InsertResult.ids (fst (insert_batches client tname batches
                                 (empty_result, (snd (client db1 BEGIN), lg1 @ [BEGIN]))))
             = concat (map (\<lambda>reply. case reply of
                              Inl e \<Rightarrow> []
                            | Inr qr \<Rightarrow>
                                (case QueryResult.rows qr of
                                   [] \<Rightarrow> []
                                 | firstRow # rest \<Rightarrow>
                                     (case find_id_field firstRow of
                                        None \<Rightarrow> []
                                      | Some key \<Rightarrow>
                                          map (\<lambda>r. row_get r key) (QueryResult.rows qr))))
                         (insert_replies client tname batches (snd (client db1 BEGIN))))"
    using insert_batches_run[OF nonempty, of client tname
            "(empty_result, (snd (client db1 BEGIN), lg1 @ [BEGIN]))",
            THEN conjunct2, THEN conjunct2, THEN conjunct2]
    by (simp add: empty_result_def)
  show "\<exists>res db2 batches.
           insertData client (db1, lg1) tname rws batchSize
             = Some (Inr res, (db2, lg1 @ [BEGIN] @ map (INSERT tname) batches @ [COMMIT])) \<and>
           split_rows 0 batchSize rws [] = Some batches \<and>
           concat batches = rws \<and>
           InsertResult.ids res
             = concat (map (\<lambda>reply. case reply of
                              Inl e \<Rightarrow> []
                            | Inr qr \<Rightarrow>
                                (case QueryResult.rows qr of
                                   [] \<Rightarrow> []
                                 | firstRow # rest \<Rightarrow>
                                     (case find_id_field firstRow of
                                        None \<Rightarrow> []
                                      | Some key \<Rightarrow>
                                          map (\<lambda>r. row_get r key) (QueryResult.rows qr))))
                         (insert_replies client tname batches (snd (client db1 BEGIN))))"
    by (intro exI[of _ "fst (insert_batches client tname batches
                                 (empty_result, (snd (client db1 BEGIN), lg1 @ [BEGIN])))"]
              exI[of _ db2] exI[of _ batches] conjI run sp cc ids)
next
  show "(find_id_field returned = None) = (\<forall>key \<in> set (map fst returned). \<not> is_id_key key)"
    by (rule find_id_field_None)
next
  assume "find_id_field returned = Some idField"
  then show "\<exists>before after. map fst returned = before @ idField # after \<and> is_id_key idField \<and>
         (\<forall>k \<in> set before. \<not> is_id_key k)"
    by (rule find_id_field_Some)
next
  show "is_id_key column = (column = ''id'' \<or> (\<exists>p. column = p @ ''_id''))"
    by (rule is_id_key_iff)
qed

lemma split_uid:
  "split_rows 0 500
     [[(''uid'', Num 1), (''name'', Str ''a'')], [(''uid'', Num 2), (''name'', Str ''b'')]] []
   = Some [[[(''uid'', Num 1), (''name'', Str ''a'')], [(''uid'', Num 2), (''name'', Str ''b'')]]]"
  by code_simp

lemma split_order_rows:
  "split_rows 0 2
     [[(''total'', Num 5), (''order_id'', Num 7)], [(''total'', Num 6), (''order_id'', Num 8)],
      [(''total'', Num 9), (''order_id'', Num 11)]] []
   = Some [[[(''total'', Num 5), (''order_id'', Num 7)], [(''total'', Num 6), (''order_id'', Num 8)]],
           [[(''total'', Num 9), (''order_id'', Num 11)]]]"
  by code_simp

theorem ids_from_id_like_column_witness:
  "(\<exists>res. insertBatch (returning three_rows) ((), []) ''T'' three_rows
             = (Inr res, ((), [] @ [INSERT ''T'' three_rows])) \<and>
          inserted res = 3 \<and> InsertResult.ids res = [Num 1, Num 2, Num 3]) \<and>
   (\<exists>res st'. insertData (returning uid_rows) ((), []) ''T'' uid_rows 500
                 = Some (Inr res, st') \<and>
          inserted res = 2 \<and> InsertResult.ids res = []) \<and>
   (\<exists>res db2.
      insertData accepting ((), []) ''Order'' order_rows 2
        = Some (Inr res,
                (db2, [] @ [BEGIN]
                        @ map (INSERT ''Order'') [take 2 order_rows, drop 2 order_rows]
                        @ [COMMIT])) \<and>
      InsertResult.ids res = [Num 7, Num 8, Num 11])"
proof -
  have a: "three_rows \<noteq> [] \<and>
           returning three_rows () (INSERT ''T'' three_rows)
             = (Inr \<lparr>rowCount = Some 3, QueryResult.rows = three_rows\<rparr>, ())"
    by (simp add: returning_def three_rows_def)
  from ids_from_id_like_column[where client="returning three_rows" and tname="''T''",
         THEN conjunct1, rule_format, OF a, of "[]"]
  obtain res where res: "insertBatch (returning three_rows) ((), []) ''T'' three_rows
             = (Inr res, ((), [] @ [INSERT ''T'' three_rows]))"
      "inserted res = 3"
      "\<forall>firstRow rest. three_rows = firstRow # rest \<longrightarrow>
            ((\<exists>key \<in> set (map fst firstRow). is_id_key key) \<longrightarrow>
               (\<exists>before key after.
                  map fst firstRow = before @ key # after \<and> is_id_key key \<and>
                  (\<forall>k \<in> set before. \<not> is_id_key k) \<and>
                  InsertResult.ids res = map (\<lambda>r. row_get r key) three_rows))"
    by auto
  have "\<exists>before key after.
           map fst [(''id'', Num 1)] = before @ key # after \<and> is_id_key key \<and>
           (\<forall>k \<in> set before. \<not> is_id_key k) \<and>
           InsertResult.ids res = map (\<lambda>r. row_get r key) three_rows"
    using res(3) by (simp add: three_rows_def is_id_key_def)
  then obtain before key after where k: "[''id''] = before @ key # after"
      "InsertResult.ids res = map (\<lambda>r. row_get r key) three_rows"
    by auto
  from k(1) have "key = ''id''" by (cases before) auto
  then have ids: "InsertResult.ids res = [Num 1, Num 2, Num 3]"
    using k(2) by (simp add: three_rows_def row_get_def)
  obtain res2 st2 where run:
    "insertData (returning uid_rows) ((), []) ''T'' uid_rows 500 = Some (Inr res2, st2)"
    "inserted res2 = 2"
    by (simp add: insertData_def uid_rows_def split_uid query_def returning_def
          insertBatch_def empty_result_def find_id_field_def is_id_key_def ends_with_def)
  have nokey: "\<forall>db b qr firstRow rest.
       fst (returning uid_rows db (INSERT ''T'' b)) = Inr qr \<and>
       QueryResult.rows qr = firstRow # rest
       \<longrightarrow> (\<forall>key \<in> set (map fst firstRow). \<not> is_id_key key)"
    by (auto simp: returning_def uid_rows_def is_id_key_def ends_with_def)
  have "InsertResult.ids res2 = []"
    using ids_from_id_like_column[where client="returning uid_rows" and tname="''T''",
            THEN conjunct2, THEN conjunct1, rule_format, OF conjI[OF run(1) nokey]] .
  then have N: "\<exists>res st'. insertData (returning uid_rows) ((), []) ''T'' uid_rows 500
                 = Some (Inr res, st') \<and>
          inserted res = 2 \<and> InsertResult.ids res = []"
    using run by blast
  have p: "(0::nat) < 2 \<and> order_rows \<noteq> [] \<and>
           (\<forall>db. \<exists>r. fst (accepting db BEGIN) = Inr r) \<and>
           (\<forall>db. \<exists>r. fst (accepting db COMMIT) = Inr r)"
    by (simp add: accepting_def order_rows_def)
  from ids_from_id_like_column[where client=accepting and tname="''Order''"
         and rws=order_rows and batchSize=2 and ?db1.0="()" and ?lg1.0="[]",
         THEN conjunct2, THEN conjunct2, THEN conjunct1, rule_format, OF p]
  obtain res3 db3 batches where run3:
      "insertData accepting ((), []) ''Order'' order_rows 2
         = Some (Inr res3, (db3, [] @ [BEGIN] @ map (INSERT ''Order'') batches @ [COMMIT]))"
    and sp: "split_rows 0 2 order_rows [] = Some batches"
    and ids3: "InsertResult.ids res3
             = concat (map (\<lambda>reply. case reply of
                              Inl e \<Rightarrow> []
                            | Inr qr \<Rightarrow>
                                (case QueryResult.rows qr of
                                   [] \<Rightarrow> []
                                 | firstRow # rest \<Rightarrow>
                                     (case find_id_field firstRow of
                                        None \<Rightarrow> []
                                      | Some key \<Rightarrow>
                                          map (\<lambda>r. row_get r key) (QueryResult.rows qr))))
                         (insert_replies accepting ''Order'' batches (snd (accepting () BEGIN))))"
    by (elim exE conjE) (rule that)
  have batches: "batches = [take 2 order_rows, drop 2 order_rows]"
    using sp split_order_rows by (simp add: order_rows_def)
  have "InsertResult.ids res3 = [Num 7, Num 8, Num 11]"
    unfolding ids3 batches
    by (simp add: accepting_def order_rows_def find_id_field_def is_id_key_def ends_with_def
          row_get_def)
  with run3[unfolded batches] have P: "\<exists>res db2.
      insertData accepting ((), []) ''Order'' order_rows 2
        = Some (Inr res,
                (db2, [] @ [BEGIN]
                        @ map (INSERT ''Order'') [take 2 order_rows, drop 2 order_rows]
                        @ [COMMIT])) \<and>
      InsertResult.ids res = [Num 7, Num 8, Num 11]"
    by (intro exI[of _ res3] exI[of _ db3] conjI)
  have I: "\<exists>res. insertBatch (returning three_rows) ((), []) ''T'' three_rows
             = (Inr res, ((), [] @ [INSERT ''T'' three_rows])) \<and>
          inserted res = 3 \<and> InsertResult.ids res = [Num 1, Num 2, Num 3]"
    using res(1,2) ids by (intro exI[of _ res] conjI)
  show ?thesis by (rule conjI[OF I conjI[OF N P]])
qed

section \<open>Properties of the topological sort\<close>

lemma entangled_graph:
  "buildDependencyGraph entangled_tables =
     [(''X'', \<lparr>table = ''X'', dependencies = [], dependents = [''A'']\<rparr>),
      (''Y'', \<lparr>table = ''Y'', dependencies = [], dependents = [''A'']\<rparr>),
      (''A'', \<lparr>table = ''A'', dependencies = [''X'', ''Y'', ''B''], dependents = [''B'']\<rparr>),
      (''B'', \<lparr>table = ''B'', dependencies = [''A'', ''C''], dependents = [''A'', ''C'']\<rparr>),
      (''C'', \<lparr>table = ''C'', dependencies = [''B''], dependents = [''B'']\<rparr>)]"
  by code_simp

lemma entangled_kahn:
  "kahn (buildDependencyGraph entangled_tables) =
     ([''X'', ''Y''], [(''X'', 0), (''Y'', 0), (''A'', 1), (''B'', 2), (''C'', 1)])"
  unfolding entangled_graph by code_simp

lemma entangled_order:
  "order (topologicalSort (buildDependencyGraph entangled_tables)) = [''X'', ''Y'', ''C'', ''B'', ''A'']"
  unfolding order_topologicalSort remaining_nodes_def entangled_kahn
  unfolding entangled_graph by code_simp

text \<open>
  Claim C7 as stated fails.  Tables \<^verbatim>\<open>X\<close>, \<^verbatim>\<open>Y\<close>, \<^verbatim>\<open>A\<close> (depends on \<^verbatim>\<open>X\<close>, \<^verbatim>\<open>Y\<close>, \<^verbatim>\<open>B\<close>),
  \<^verbatim>\<open>B\<close> (depends on \<^verbatim>\<open>A\<close>, \<^verbatim>\<open>C\<close>) and \<^verbatim>\<open>C\<close> (depends on \<^verbatim>\<open>B\<close>): after the queue loop \<^verbatim>\<open>A\<close>
  and \<^verbatim>\<open>C\<close> have one unresolved dependency left and \<^verbatim>\<open>B\<close> two, and the residual nodes
  are appended as \<^verbatim>\<open>C\<close>, \<^verbatim>\<open>B\<close>, \<^verbatim>\<open>A\<close>, whose remaining counts 1, 2, 1 are not ascending.
\<close>

theorem residual_not_sorted_by_remaining_count:
  "order (topologicalSort (buildDependencyGraph entangled_tables))
     = [''X'', ''Y''] @ [''C'', ''B'', ''A''] \<and>
   fst (kahn (buildDependencyGraph entangled_tables)) = [''X'', ''Y''] \<and>
   map (degree_of (snd (kahn (buildDependencyGraph entangled_tables)))) [''C'', ''B'', ''A'']
     = [1, 2, 1] \<and>
   \<not> sorted [1, 2, 1 :: int]"
  by (simp add: entangled_order entangled_kahn degree_of_def)

text \<open>
  Claim C7, as amended.  When residual nodes exist, the order is the output of the queue
  loop followed by the residual nodes sorted ascending by the number of dependencies
  the graph declares for them (\<^verbatim>\<open>graph.get(a).dependencies.length\<close>, resolved or not);
  the sort is stable, so nodes with equal counts keep the order of the in-degree map.
\<close>

theorem residual_sorted_by_declared_count:
  "remaining_nodes g \<noteq> [] \<longrightarrow>
     (\<exists>residual.
        order (topologicalSort g) = fst (kahn g) @ residual \<and>
        mset residual = mset (remaining_nodes g) \<and>
        sorted (map (dep_count g) residual) \<and>
        (\<forall>n. filter (\<lambda>a. dep_count g a = n) residual
               = filter (\<lambda>a. dep_count g a = n) (remaining_nodes g)))"
proof
  assume ne: "remaining_nodes g \<noteq> []"
  let ?res = "sort_key (dep_count g) (remaining_nodes g)"
  have "order (topologicalSort g) = fst (kahn g) @ ?res"
    using ne by (simp add: order_topologicalSort)
  moreover have "mset ?res = mset (remaining_nodes g)" by simp
  moreover have "sorted (map (dep_count g) ?res)" by (rule sorted_sort_key)
  moreover have "\<forall>n. filter (\<lambda>a. dep_count g a = n) ?res
               = filter (\<lambda>a. dep_count g a = n) (remaining_nodes g)"
    by (simp add: sort_key_stable)
  ultimately show "\<exists>residual.
        order (topologicalSort g) = fst (kahn g) @ residual \<and>
        mset residual = mset (remaining_nodes g) \<and>
        sorted (map (dep_count g) residual) \<and>
        (\<forall>n. filter (\<lambda>a. dep_count g a = n) residual
               = filter (\<lambda>a. dep_count g a = n) (remaining_nodes g))"
    by blast
qed

theorem residual_sorted_by_declared_count_witness:
  "\<exists>residual.
     order (topologicalSort (buildDependencyGraph entangled_tables)) = [''X'', ''Y''] @ residual \<and>
     mset residual = mset [''A'', ''B'', ''C''] \<and>
     sorted (map (dep_count (buildDependencyGraph entangled_tables)) residual)"
proof -
  have r: "remaining_nodes (buildDependencyGraph entangled_tables) = [''A'', ''B'', ''C'']"
    by (simp add: remaining_nodes_def entangled_kahn)
  then have ne: "remaining_nodes (buildDependencyGraph entangled_tables) \<noteq> []" by simp
  from residual_sorted_by_declared_count[rule_format, OF ne]
  show ?thesis unfolding r entangled_kahn by auto
qed

lemma keys_update_existing:
  "map_of al k = Some v0 \<Longrightarrow> map fst (AList.update k v al) = map fst al"
  by (force simp: update_keys dest: map_of_SomeD)

lemma keys_update_set: "fst ` set (AList.update k v al) = insert k (fst ` set al)"
proof -
  have "set (map fst (AList.update k v al)) = insert k (set (map fst al))"
    unfolding update_keys by auto
  then show ?thesis by simp
qed

lemma init_nodes_keys_set:
  "fst ` set (foldl init_node acc ts) = fst ` set acc \<union> tableName ` set ts"
  by (induction ts arbitrary: acc) (simp_all add: init_node_def keys_update_set)

lemma init_nodes_keys:
  "distinct (map fst acc @ map tableName ts) \<Longrightarrow>
   map fst (foldl init_node acc ts) = map fst acc @ map tableName ts"
proof (induction ts arbitrary: acc)
  case Nil
  then show ?case by simp
next
  case (Cons t ts)
  have new: "tableName t \<notin> set (map fst acc)" using Cons.prems by auto
  then have k: "map fst (init_node acc t) = map fst acc @ [tableName t]"
    by (simp add: init_node_def update_keys)
  have "distinct (map fst (init_node acc t) @ map tableName ts)"
    unfolding k using Cons.prems by auto
  from Cons.IH[OF this] show ?case using k by simp
qed

lemma init_nodes_empty:
  "distinct (map fst acc) \<Longrightarrow>
   \<forall>a n. map_of acc a = Some n \<longrightarrow> dependencies n = [] \<and> dependents n = [] \<Longrightarrow>
   distinct (map fst (foldl init_node acc ts)) \<and>
   (\<forall>a n. map_of (foldl init_node acc ts) a = Some n
      \<longrightarrow> dependencies n = [] \<and> dependents n = [])"
proof (induction ts arbitrary: acc)
  case Nil
  then show ?case by simp
next
  case (Cons t ts)
  have d: "distinct (map fst (init_node acc t))"
    using Cons.prems(1) by (simp add: init_node_def distinct_update)
  have e: "\<forall>a n. map_of (init_node acc t) a = Some n
            \<longrightarrow> dependencies n = [] \<and> dependents n = []"
    using Cons.prems(2) by (auto simp: init_node_def update_conv' split: if_splits)
  from Cons.IH[OF d e] show ?case by simp
qed

lemma wf_init_nodes: "wf_graph (foldl init_node [] ts)"
  using init_nodes_empty[of "[]" ts] by (auto simp: wf_graph_def)

lemma add_edge_keys: "map fst (add_edge t g f) = map fst g"
  by (auto simp: add_edge_def Let_def keys_update_existing update_conv'
           split: option.splits if_splits)

lemma wf_add_edge:
  assumes "wf_graph g"
  shows "wf_graph (add_edge t g f)"
proof (cases "relation f")
  case None
  then show ?thesis using assms by (simp add: add_edge_def)
next
  case (Some rel)
  let ?r = "relatedTable rel"
  show ?thesis
  proof (cases "truthy_str (foreignKeyField rel) \<and> ?r \<noteq> t")
    case False
    then show ?thesis using assms Some by (auto simp: add_edge_def)
  next
    case True
    define g1 where "g1 = (case map_of g t of
                        None \<Rightarrow> g
                      | Some node \<Rightarrow>
                          if ?r \<in> set (dependencies node) then g
                          else AList.update t
                                 (node\<lparr>dependencies := dependencies node @ [?r]\<rparr>) g)"
    define g2 where "g2 = (case map_of g1 ?r of
                  None \<Rightarrow> g1
                | Some relatedNode \<Rightarrow>
                    if t \<in> set (dependents relatedNode) then g1
                    else AList.update ?r
                           (relatedNode\<lparr>dependents := dependents relatedNode @ [t]\<rparr>) g1)"
    have eq: "add_edge t g f = g2"
      unfolding g2_def g1_def add_edge_def Let_def using True Some by simp
    have d1: "distinct (map fst g1)"
      using assms by (auto simp: g1_def wf_graph_def distinct_update split: option.splits)
    have d2: "distinct (map fst g2)"
      using d1 by (auto simp: g2_def distinct_update split: option.splits)
    define up1 :: "DependencyNode \<Rightarrow> DependencyNode" where "up1 = (\<lambda>n. if ?r \<in> set (dependencies n) then n
                                    else n\<lparr>dependencies := dependencies n @ [?r]\<rparr>)"
    define up2 :: "DependencyNode \<Rightarrow> DependencyNode" where "up2 = (\<lambda>n. if t \<in> set (dependents n) then n
                                    else n\<lparr>dependents := dependents n @ [t]\<rparr>)"
    have up1: "set (dependencies (up1 n)) = insert ?r (set (dependencies n))"
        "dependents (up1 n) = dependents n"
        "distinct (dependencies n) \<Longrightarrow> distinct (dependencies (up1 n))" for n
      by (auto simp: up1_def)
    have up2: "set (dependents (up2 n)) = insert t (set (dependents n))"
        "dependencies (up2 n) = dependencies n"
        "distinct (dependents n) \<Longrightarrow> distinct (dependents (up2 n))" for n
      by (auto simp: up2_def)
    have m1: "map_of g1 a = (if a = t then map_option up1 (map_of g t) else map_of g a)" for a
      by (auto simp: g1_def up1_def update_conv' split: option.splits)
    have m2: "map_of g2 a = (if a = ?r then map_option up2 (map_of g1 ?r) else map_of g1 a)" for a
      by (auto simp: g2_def up2_def update_conv' split: option.splits)
    have ne: "?r \<noteq> t" using True by simp
    have m: "map_of g2 a = (if a = ?r then map_option up2 (map_of g ?r)
                            else if a = t then map_option up1 (map_of g t)
                            else map_of g a)" for a
      unfolding m2 m1 using ne by simp
    have origin: "\<exists>n0. map_of g a = Some n0 \<and>
                  set (dependencies n) = set (dependencies n0) \<union> (if a = t then {?r} else {}) \<and>
                  set (dependents n) = set (dependents n0) \<union> (if a = ?r then {t} else {}) \<and>
                  (distinct (dependencies n0) \<longrightarrow> distinct (dependencies n)) \<and>
                  (distinct (dependents n0) \<longrightarrow> distinct (dependents n))"
      if h: "map_of g2 a = Some n" for a n
    proof (cases "a = ?r")
      case True
      with h obtain n0 where "map_of g ?r = Some n0" "n = up2 n0" unfolding m by auto
      then show ?thesis using True ne up2 by auto
    next
      case False
      show ?thesis
      proof (cases "a = t")
        case True
        with h False obtain n0 where "map_of g t = Some n0" "n = up1 n0" unfolding m by auto
        then show ?thesis using True ne up1 by auto
      next
        case nt: False
        with h False have "map_of g a = Some n" unfolding m by simp
        then show ?thesis using False nt by simp
      qed
    qed
    have lists: "\<forall>a n. map_of g2 a = Some n
                   \<longrightarrow> distinct (dependencies n) \<and> distinct (dependents n)"
    proof (intro allI impI)
      fix a n assume "map_of g2 a = Some n"
      from origin[OF this] obtain n0 where "map_of g a = Some n0"
        "distinct (dependencies n0) \<longrightarrow> distinct (dependencies n)"
        "distinct (dependents n0) \<longrightarrow> distinct (dependents n)" by blast
      then show "distinct (dependencies n) \<and> distinct (dependents n)"
        using assms unfolding wf_graph_def by blast
    qed
    have sym: "\<forall>a c na nc. map_of g2 a = Some na \<and> map_of g2 c = Some nc \<longrightarrow>
        (a \<in> set (dependents nc)) = (c \<in> set (dependencies na))"
    proof (intro allI impI)
      fix a c na nc
      assume h: "map_of g2 a = Some na \<and> map_of g2 c = Some nc"
      from origin[of a na] h obtain na0 where na0: "map_of g a = Some na0"
        and depsa: "set (dependencies na) = set (dependencies na0) \<union> (if a = t then {?r} else {})"
        by blast
      from origin[of c nc] h obtain nc0 where nc0: "map_of g c = Some nc0"
        and dpc: "set (dependents nc) = set (dependents nc0) \<union> (if c = ?r then {t} else {})"
        by blast
      have old: "(a \<in> set (dependents nc0)) = (c \<in> set (dependencies na0))"
        using assms na0 nc0 unfolding wf_graph_def by blast
      show "(a \<in> set (dependents nc)) = (c \<in> set (dependencies na))"
        unfolding depsa dpc using old by auto
    qed
    show ?thesis unfolding eq wf_graph_def using d2 lists sym by blast
  qed
qed

lemma index_of_less: "index_of xs x < length xs \<longleftrightarrow> x \<in> set xs"
  by (induction xs) auto

lemma index_of_le: "index_of xs x \<le> length xs"
  by (induction xs) auto

lemma index_of_append_in: "x \<in> set xs \<Longrightarrow> index_of (xs @ ys) x = index_of xs x"
  by (induction xs) auto

lemma index_of_append_new: "x \<notin> set xs \<Longrightarrow> index_of (xs @ [x]) x = length xs"
  by (induction xs) auto

lemma wf_add_table_edges: "wf_graph g \<Longrightarrow> wf_graph (add_table_edges g t)"
proof -
  have "wf_graph g \<Longrightarrow> wf_graph (foldl (add_edge n) g fs)" for n fs
    by (induction fs arbitrary: g) (simp_all add: wf_add_edge)
  then show "wf_graph g \<Longrightarrow> wf_graph (add_table_edges g t)"
    by (simp add: add_table_edges_def)
qed

lemma add_table_edges_keys: "map fst (add_table_edges g t) = map fst g"
proof -
  have "map fst (foldl (add_edge n) g fs) = map fst g" for n fs
    by (induction fs arbitrary: g) (simp_all add: add_edge_keys)
  then show ?thesis by (simp add: add_table_edges_def)
qed

lemma wf_buildDependencyGraph: "wf_graph (buildDependencyGraph tables)"
proof -
  have "wf_graph g \<Longrightarrow> wf_graph (foldl add_table_edges g ts)" for g ts
    by (induction ts arbitrary: g) (simp_all add: wf_add_table_edges)
  then show ?thesis unfolding buildDependencyGraph_def using wf_init_nodes by blast
qed

lemma buildDependencyGraph_keys:
  "map fst (buildDependencyGraph tables) = map fst (foldl init_node [] tables)"
proof -
  have "map fst (foldl add_table_edges g ts) = map fst g" for g ts
    by (induction ts arbitrary: g) (simp_all add: add_table_edges_keys)
  then show ?thesis by (simp add: buildDependencyGraph_def)
qed

lemma buildDependencyGraph_key_set:
  "set (map fst (buildDependencyGraph tables)) = set (map tableName tables)"
  unfolding buildDependencyGraph_keys using init_nodes_keys_set[of "[]" tables] by simp

lemma buildDependencyGraph_key_list:
  "distinct (map tableName tables) \<Longrightarrow>
   map fst (buildDependencyGraph tables) = map tableName tables"
  unfolding buildDependencyGraph_keys using init_nodes_keys[of "[]" tables] by simp

lemma update_new_key: "k \<notin> fst ` set al \<Longrightarrow> AList.update k v al = al @ [(k, v)]"
  by (induction al) auto

lemma foldl_update_distinct:
  "distinct (map fst acc @ map fst xs) \<Longrightarrow>
   foldl (\<lambda>m (k, v). AList.update k (f v) m) acc xs = acc @ map (\<lambda>(k, v). (k, f v)) xs"
proof (induction xs arbitrary: acc)
  case Nil
  then show ?case by simp
next
  case (Cons x xs)
  obtain k v where x: "x = (k, v)" by (cases x)
  have new: "k \<notin> fst ` set acc" using Cons.prems x by auto
  have d: "distinct (map fst (acc @ [(k, f v)]) @ map fst xs)" using Cons.prems x by auto
  show ?case using Cons.IH[OF d] x by (simp add: update_new_key[OF new])
qed

lemma initial_degrees_eq:
  "distinct (map fst g) \<Longrightarrow>
   initial_degrees g = map (\<lambda>(t, n). (t, int (length (dependencies n)))) g"
  unfolding initial_degrees_def
  using foldl_update_distinct[of "[]" g "\<lambda>n. int (length (dependencies n))"] by simp

lemma initial_adj_eq:
  "distinct (map fst g) \<Longrightarrow> initial_adj g = map (\<lambda>(t, n). (t, dependents n)) g"
  unfolding initial_adj_def
  using foldl_update_distinct[of "[]" g dependents] by simp

lemma map_of_initial_degrees:
  "distinct (map fst g) \<Longrightarrow>
   map_of (initial_degrees g) t = map_option (\<lambda>n. int (length (dependencies n))) (map_of g t)"
  by (simp add: initial_degrees_eq map_of_map)

lemma map_of_initial_adj:
  "distinct (map fst g) \<Longrightarrow>
   map_of (initial_adj g) t = map_option dependents (map_of g t)"
  by (simp add: initial_adj_eq map_of_map)

lemma keys_initial_degrees:
  "distinct (map fst g) \<Longrightarrow> map fst (initial_degrees g) = map fst g"
  by (simp add: initial_degrees_eq case_prod_beta)

text \<open>The effect of the inner loop on a duplicate-free list of dependents.\<close>

lemma degree_of_update:
  "degree_of (AList.update k d m) t = (if t = k then d else degree_of m t)"
  by (simp add: degree_of_def update_conv')

lemma foldl_reduce_closed:
  "distinct ds \<Longrightarrow>
   (\<forall>t. degree_of (fst (foldl reduce_dependent (m, q) ds)) t
          = degree_of m t - (if t \<in> set ds then 1 else 0)) \<and>
   snd (foldl reduce_dependent (m, q) ds) = q @ filter (\<lambda>d. degree_of m d = 1) ds \<and>
   (distinct (map fst m) \<longrightarrow> distinct (map fst (fst (foldl reduce_dependent (m, q) ds))))"
proof (induction ds arbitrary: m q)
  case Nil
  then show ?case by simp
next
  case (Cons d ds)
  let ?m1 = "AList.update d (degree_of m d - 1) m"
  let ?q1 = "if degree_of m d - 1 = 0 then q @ [d] else q"
  have step: "reduce_dependent (m, q) d = (?m1, ?q1)"
    by (simp add: reduce_dependent_def Let_def)
  have dist: "distinct ds" and nd: "d \<notin> set ds" using Cons.prems by simp_all
  note ih = Cons.IH[OF dist, of ?m1 ?q1]
  have same: "filter (\<lambda>x. degree_of ?m1 x = 1) ds = filter (\<lambda>x. degree_of m x = 1) ds"
    using nd by (intro filter_cong) (auto simp: degree_of_update)
  have a: "\<forall>t. degree_of (fst (foldl reduce_dependent (m, q) (d # ds))) t
          = degree_of m t - (if t \<in> set (d # ds) then 1 else 0)"
    using ih nd by (auto simp: step degree_of_update)
  have b: "snd (foldl reduce_dependent (m, q) (d # ds))
             = q @ filter (\<lambda>x. degree_of m x = 1) (d # ds)"
    using ih same by (simp add: step)
  have c: "distinct (map fst m) \<longrightarrow>
             distinct (map fst (fst (foldl reduce_dependent (m, q) (d # ds))))"
    using ih by (simp add: step distinct_update)
  show ?case using a b c by blast
qed

lemma key_has_node: "t \<in> fst ` set g \<Longrightarrow> \<exists>n. map_of g t = Some n"
  by (metis map_of_eq_None_iff not_Some_eq)

lemma node_has_key: "map_of g t = Some n \<Longrightarrow> t \<in> fst ` set g"
  by (force dest: map_of_SomeD)

lemma kahn_inv_initial:
  assumes wf: "wf_graph g"
  shows "kahn_inv g (initial_degrees g) (initial_queue (initial_degrees g)) []"
proof -
  have dk: "distinct (map fst g)" using wf by (simp add: wf_graph_def)
  have keys: "map fst (initial_degrees g) = map fst g" by (rule keys_initial_degrees[OF dk])
  have deg: "degree_of (initial_degrees g) t = int (length (deps_of g t))" for t
    by (simp add: degree_of_def deps_of_def map_of_initial_degrees[OF dk] split: option.splits)
  have dd: "distinct (deps_of g t)" for t
    using wf by (auto simp: wf_graph_def deps_of_def split: option.splits)
  have card: "card (set (deps_of g t)) = length (deps_of g t)" for t
    by (rule distinct_card[OF dd])
  have qset: "t \<in> set (initial_queue (initial_degrees g))
                \<longleftrightarrow> t \<in> fst ` set g \<and> deps_of g t = []" for t
  proof -
    have "t \<in> set (initial_queue (initial_degrees g))
            \<longleftrightarrow> (t, 0) \<in> set (initial_degrees g)"
      by (force simp: initial_queue_def)
    also have "\<dots> \<longleftrightarrow> map_of (initial_degrees g) t = Some 0"
      using keys dk by (metis map_of_eq_Some_iff)
    also have "\<dots> \<longleftrightarrow> t \<in> fst ` set g \<and> deps_of g t = []"
    proof (cases "map_of g t")
      case None
      then have "t \<notin> fst ` set g" by (simp add: map_of_eq_None_iff)
      then show ?thesis using None by (simp add: map_of_initial_degrees[OF dk])
    next
      case (Some n)
      then have "t \<in> fst ` set g" by (rule node_has_key)
      then show ?thesis using Some by (simp add: map_of_initial_degrees[OF dk] deps_of_def)
    qed
    finally show ?thesis .
  qed
  have dq: "distinct (initial_queue (initial_degrees g))"
    unfolding initial_queue_def using keys dk by (simp add: distinct_map_filter)
  have out: "degree_of (initial_degrees g) t \<le> 0" if "t \<notin> fst ` set g" for t
    using that by (simp add: deg deps_of_def map_of_eq_None_iff[THEN iffD2])
  show ?thesis
    unfolding kahn_inv_def
    using keys dk dq qset deg card out by auto
qed

lemma kahn_inv_step:
  assumes wf: "wf_graph g" and inv: "kahn_inv g m (c # q) ord"
  shows "kahn_inv g
           (fst (foldl reduce_dependent (m, q) (adj_of (initial_adj g) c)))
           (snd (foldl reduce_dependent (m, q) (adj_of (initial_adj g) c)))
           (ord @ [c])"
proof -
  let ?K = "fst ` set g"
  let ?D = "\<lambda>t. set (deps_of g t)"
  let ?ds = "adj_of (initial_adj g) c"
  let ?m' = "fst (foldl reduce_dependent (m, q) ?ds)"
  let ?q' = "snd (foldl reduce_dependent (m, q) ?ds)"
  have dk: "distinct (map fst g)" using wf by (simp add: wf_graph_def)
  have im: "distinct (map fst m)" and idist: "distinct (ord @ c # q)"
    and isub: "set (ord @ c # q) \<subseteq> ?K"
    and ideg: "\<And>t. t \<in> ?K \<Longrightarrow> degree_of m t = int (card (?D t - set ord))"
    and imem: "\<And>t. t \<in> ?K \<Longrightarrow> (t \<in> set (ord @ c # q)) = (?D t \<subseteq> set ord)"
    and iout: "\<And>t. t \<notin> ?K \<Longrightarrow> degree_of m t \<le> 0"
    and ipos: "\<And>a b. a \<in> set ord \<Longrightarrow> b \<in> ?D a \<Longrightarrow> index_of ord b < index_of ord a"
    using inv unfolding kahn_inv_def by blast+
  have cK: "c \<in> ?K" using isub by simp
  have cnew: "c \<notin> set ord" "c \<notin> set q" using idist by simp_all
  from key_has_node[OF cK] obtain nc where nc: "map_of g c = Some nc" by blast
  have ds: "?ds = dependents nc"
    by (simp add: adj_of_def map_of_initial_adj[OF dk] nc)
  have dds: "distinct ?ds" using wf nc unfolding ds wf_graph_def by blast
  have edge: "(t \<in> set ?ds) = (c \<in> ?D t)" if "t \<in> ?K" for t
  proof -
    from key_has_node[OF that] obtain nt where nt: "map_of g t = Some nt" by blast
    have "(t \<in> set (dependents nc)) = (c \<in> set (dependencies nt))"
      using wf nt nc unfolding wf_graph_def by blast
    then show ?thesis by (simp add: ds deps_of_def nt)
  qed
  from foldl_reduce_closed[OF dds, of m q]
  have cdeg: "\<And>t. degree_of ?m' t = degree_of m t - (if t \<in> set ?ds then 1 else 0)"
    and cq: "?q' = q @ filter (\<lambda>d. degree_of m d = 1) ?ds"
    and cm: "distinct (map fst ?m')"
    using im by blast+
  have fin: "finite (?D t - set ord)" for t by simp
  have ndeg: "degree_of ?m' t = int (card (?D t - set (ord @ [c])))" if t: "t \<in> ?K" for t
  proof (cases "c \<in> ?D t")
    case True
    then have mem: "c \<in> ?D t - set ord" using cnew by simp
    have "card (?D t - set ord - {c}) = card (?D t - set ord) - 1"
      using mem by (simp add: card_Diff_singleton)
    moreover have "0 < card (?D t - set ord)" using mem fin card_gt_0_iff by blast
    moreover have "?D t - set (ord @ [c]) = ?D t - set ord - {c}" by auto
    ultimately show ?thesis using cdeg[of t] ideg[OF t] edge[OF t] True by simp
  next
    case False
    then have "?D t - set (ord @ [c]) = ?D t - set ord" by auto
    then show ?thesis using cdeg[of t] ideg[OF t] edge[OF t] False by simp
  qed
  have pushed: "d \<in> ?K \<and> c \<in> ?D d \<and> ?D d - set ord = {c} \<and> d \<notin> set (ord @ c # q)"
    if d: "d \<in> set ?ds" "degree_of m d = 1" for d
  proof -
    have dK: "d \<in> ?K" using iout[of d] d(2) by force
    have cd: "c \<in> ?D d" using edge[OF dK] d(1) by simp
    have c1: "card (?D d - set ord) = 1" using ideg[OF dK] d(2) by simp
    have "c \<in> ?D d - set ord" using cd cnew by simp
    then have single: "?D d - set ord = {c}"
      using c1 by (metis card_1_singletonE singletonD)
    then have "\<not> ?D d \<subseteq> set ord" by blast
    then have "d \<notin> set (ord @ c # q)" using imem[OF dK] by simp
    then show ?thesis using dK cd single by blast
  qed
  have nmem: "(t \<in> set ((ord @ [c]) @ ?q')) = (?D t \<subseteq> set (ord @ [c]))" if t: "t \<in> ?K" for t
  proof
    assume "t \<in> set ((ord @ [c]) @ ?q')"
    then consider "t \<in> set (ord @ c # q)" | "t \<in> set ?ds" "degree_of m t = 1"
      unfolding cq by auto
    then show "?D t \<subseteq> set (ord @ [c])"
    proof cases
      case 1
      then show ?thesis using imem[OF t] by auto
    next
      case 2
      from pushed[OF 2] have "?D t - set ord = {c}" by blast
      then show ?thesis by auto
    qed
  next
    assume sub: "?D t \<subseteq> set (ord @ [c])"
    show "t \<in> set ((ord @ [c]) @ ?q')"
    proof (cases "?D t \<subseteq> set ord")
      case True
      then show ?thesis using imem[OF t] unfolding cq by auto
    next
      case False
      then have cd: "c \<in> ?D t" using sub by auto
      have "?D t - set ord = {c}" using sub False cnew by auto
      then have "degree_of m t = 1" using ideg[OF t] by simp
      moreover have "t \<in> set ?ds" using edge[OF t] cd by simp
      ultimately show ?thesis unfolding cq by simp
    qed
  qed
  have ndist: "distinct ((ord @ [c]) @ ?q')"
  proof -
    have "distinct (filter (\<lambda>d. degree_of m d = 1) ?ds)" using dds by simp
    moreover have "set (filter (\<lambda>d. degree_of m d = 1) ?ds) \<inter> set (ord @ c # q) = {}"
      using pushed by auto
    ultimately show ?thesis using idist unfolding cq by auto
  qed
  have nsub: "set ((ord @ [c]) @ ?q') \<subseteq> ?K"
    using isub pushed unfolding cq by auto
  have nout: "degree_of ?m' t \<le> 0" if "t \<notin> ?K" for t
    using iout[OF that] cdeg[of t] by simp
  have npos: "index_of (ord @ [c]) b < index_of (ord @ [c]) a"
    if a: "a \<in> set (ord @ [c])" and b: "b \<in> ?D a" for a b
  proof (cases "a \<in> set ord")
    case True
    have lt: "index_of ord b < index_of ord a" using ipos[OF True b] .
    have "index_of ord a < length ord" using True by (simp add: index_of_less)
    then have "b \<in> set ord" using lt index_of_less[of ord b] by simp
    then show ?thesis using True lt by (simp add: index_of_append_in)
  next
    case False
    then have ac: "a = c" using a by simp
    have "?D c \<subseteq> set ord" using imem[OF cK] by simp
    then have bo: "b \<in> set ord" using b ac by auto
    then have "index_of (ord @ [c]) b = index_of ord b" by (simp add: index_of_append_in)
    moreover have "index_of ord b < length ord" using bo by (simp add: index_of_less)
    moreover have "index_of (ord @ [c]) c = length ord"
      using cnew by (simp add: index_of_append_new)
    ultimately show ?thesis using ac by simp
  qed
  show ?thesis
    unfolding kahn_inv_def
    using cm ndist nsub ndeg nmem nout npos by blast
qed

lemma process_queue_inv:
  assumes wf: "wf_graph g"
  shows "kahn_inv g m q ord \<Longrightarrow>
         kahn_inv g (snd (process_queue (initial_adj g) m q ord)) []
                    (fst (process_queue (initial_adj g) m q ord))"
proof (induction "initial_adj g" m q ord rule: process_queue.induct)
  case (1 inDegree ord)
  then show ?case by simp
next
  case (2 inDegree current queue ord)
  from kahn_inv_step[OF wf "2.prems"] "2.hyps" show ?case by simp
qed

lemma kahn_final:
  assumes wf: "wf_graph g"
  shows "kahn_inv g (snd (kahn g)) [] (fst (kahn g))"
  unfolding kahn_def by (rule process_queue_inv[OF wf kahn_inv_initial[OF wf]])

lemma remaining_nodes_set:
  assumes wf: "wf_graph g"
  shows "set (remaining_nodes g) = fst ` set g - set (fst (kahn g))"
    and "distinct (remaining_nodes g)"
    and "distinct (fst (kahn g))"
    and "set (fst (kahn g)) \<subseteq> fst ` set g"
proof -
  let ?m = "snd (kahn g)" and ?o = "fst (kahn g)" and ?K = "fst ` set g"
  from kahn_final[OF wf]
  have inv: "distinct (map fst ?m) \<and> distinct ?o \<and> set ?o \<subseteq> ?K \<and>
     (\<forall>t \<in> ?K. degree_of ?m t = int (card (set (deps_of g t) - set ?o))) \<and>
     (\<forall>t \<in> ?K. (t \<in> set ?o) = (set (deps_of g t) \<subseteq> set ?o)) \<and>
     (\<forall>t. t \<notin> ?K \<longrightarrow> degree_of ?m t \<le> 0) \<and>
     (\<forall>a \<in> set ?o. \<forall>b \<in> set (deps_of g a). index_of ?o b < index_of ?o a)"
    unfolding kahn_inv_def append_Nil2 .
  have im: "distinct (map fst ?m)" and idist: "distinct ?o" and isub: "set ?o \<subseteq> ?K"
    using inv by (rule conjunct1, rule conjunct2[THEN conjunct1],
                  rule conjunct2[THEN conjunct2, THEN conjunct1])
  have ideg: "degree_of ?m t = int (card (set (deps_of g t) - set ?o))" if "t \<in> ?K" for t
    using inv[THEN conjunct2, THEN conjunct2, THEN conjunct2, THEN conjunct1] that by (rule bspec)
  have imem: "(t \<in> set ?o) = (set (deps_of g t) \<subseteq> set ?o)" if "t \<in> ?K" for t
    using inv[THEN conjunct2, THEN conjunct2, THEN conjunct2, THEN conjunct2, THEN conjunct1] that
    by (rule bspec)
  have iout: "degree_of ?m t \<le> 0" if "t \<notin> ?K" for t
    using inv[THEN conjunct2, THEN conjunct2, THEN conjunct2, THEN conjunct2, THEN conjunct2,
              THEN conjunct1, rule_format, OF that] .
  have rem: "t \<in> set (remaining_nodes g) \<longleftrightarrow> 0 < degree_of ?m t" for t
  proof -
    have "t \<in> set (remaining_nodes g) \<longleftrightarrow> (\<exists>d. (t, d) \<in> set ?m \<and> 0 < d)"
      by (force simp: remaining_nodes_def)
    also have "\<dots> \<longleftrightarrow> (\<exists>d. map_of ?m t = Some d \<and> 0 < d)"
      using im by (metis map_of_eq_Some_iff)
    also have "\<dots> \<longleftrightarrow> 0 < degree_of ?m t"
      by (auto simp: degree_of_def split: option.splits)
    finally show ?thesis .
  qed
  have pos: "0 < degree_of ?m t \<longleftrightarrow> t \<notin> set ?o" if t: "t \<in> ?K" for t
  proof -
    have "0 < degree_of ?m t \<longleftrightarrow> set (deps_of g t) - set ?o \<noteq> {}"
      using ideg[OF t] by (simp add: card_gt_0_iff)
    then show ?thesis using imem[OF t] by auto
  qed
  show "set (remaining_nodes g) = ?K - set ?o"
  proof (intro set_eqI iffI)
    fix t assume "t \<in> set (remaining_nodes g)"
    then have d: "0 < degree_of ?m t" using rem by simp
    then have "t \<in> ?K" using iout[of t] by force
    then show "t \<in> ?K - set ?o" using pos d by simp
  next
    fix t assume "t \<in> ?K - set ?o"
    then show "t \<in> set (remaining_nodes g)" using rem pos by simp
  qed
  show "distinct (remaining_nodes g)"
    unfolding remaining_nodes_def using im by (simp add: distinct_map_filter)
  show "distinct ?o" by (rule idist)
  show "set ?o \<subseteq> ?K" by (rule isub)
qed

lemma topologicalSort_order_split:
  "order (topologicalSort g) = fst (kahn g) @ sort_key (dep_count g) (remaining_nodes g)"
  by (simp add: order_topologicalSort)

lemma topologicalSort_order_perm:
  assumes wf: "wf_graph g"
  shows "distinct (order (topologicalSort g))"
    and "set (order (topologicalSort g)) = fst ` set g"
  using remaining_nodes_set[OF wf]
  by (auto simp: topologicalSort_order_split)

text \<open>The level loop.\<close>

lemma level_loop_partition:
  "distinct (map tableName tables) \<Longrightarrow>
         distinct processed \<Longrightarrow> set processed = set (concat levels) \<Longrightarrow>
         distinct (concat levels) \<Longrightarrow> set processed \<subseteq> set (map tableName tables) \<Longrightarrow>
         [] \<notin> set levels \<Longrightarrow>
         distinct (concat (level_loop tables g processed levels)) \<and>
         set (concat (level_loop tables g processed levels)) = set (map tableName tables) \<and>
         [] \<notin> set (level_loop tables g processed levels)"
proof (induction tables g processed levels rule: level_loop.induct)
  case (1 tables g processed levels)
  let ?names = "map tableName tables"
  let ?cur = "map tableName (filter (level_ready g processed) tables)"
  let ?rest = "map tableName (filter (\<lambda>t. tableName t \<notin> set processed) tables)"
  have names': "distinct ?names" using "1.prems"(1) by simp
  show ?case
  proof (cases "length processed < length tables")
    case False
    have "card (set processed) = length processed" using "1.prems"(2) by (rule distinct_card)
    moreover have "card (set ?names) = length tables"
      using distinct_card[OF names'] by simp
    ultimately have "card (set ?names) \<le> card (set processed)" using False by simp
    then have "set processed = set ?names"
      using "1.prems"(5) by (simp add: card_seteq)
    moreover have "level_loop tables g processed levels = levels"
      using False by (subst level_loop.simps) simp
    ultimately show ?thesis
      using "1.prems" by simp
  next
    case True
    have drest: "distinct ?rest" using names' by (simp add: distinct_map_filter)
    have srest: "set ?rest = set ?names - set processed" by auto
    show ?thesis
    proof (cases "?cur = []")
      case cur: True
      have eq: "level_loop tables g processed levels
                  = (if ?rest \<noteq> [] then levels @ [?rest] else levels)"
        using True cur by (subst level_loop.simps) (simp add: Let_def)
      show ?thesis
      proof (cases "?rest = []")
        case True
        then have "set ?names \<subseteq> set processed" using srest by auto
        then show ?thesis using eq True "1.prems" by auto
      next
        case False
        have "distinct (concat (levels @ [?rest]))"
          using "1.prems"(3,4) drest srest by auto
        moreover have "set (concat (levels @ [?rest])) = set ?names"
          using "1.prems"(3,5) srest by auto
        ultimately show ?thesis using eq False "1.prems"(6) by simp
      qed
    next
      case cur: False
      have eq: "level_loop tables g processed levels
                  = level_loop tables g (foldl set_add processed ?cur) (levels @ [?cur])"
        using True cur by (subst level_loop.simps) (simp add: Let_def)
      have dcur: "distinct ?cur" using names' by (simp add: distinct_map_filter)
      have scur: "set ?cur \<subseteq> set ?names - set processed"
        by (auto simp: level_ready_def)
      have p1: "distinct (foldl set_add processed ?cur)"
      proof -
        have "distinct p \<Longrightarrow> distinct (foldl set_add p xs)" for p xs
          by (induction xs arbitrary: p) (simp_all add: set_add_def)
        then show ?thesis using "1.prems"(2) by blast
      qed
      have p2: "set (foldl set_add processed ?cur) = set (concat (levels @ [?cur]))"
        using "1.prems"(3) by (simp add: set_foldl_set_add)
      have p3: "distinct (concat (levels @ [?cur]))"
        using "1.prems"(3,4) dcur scur by auto
      have p4: "set (foldl set_add processed ?cur) \<subseteq> set (map tableName tables)"
        using "1.prems"(5) scur by (auto simp: set_foldl_set_add)
      have p5: "[] \<notin> set (levels @ [?cur])" using "1.prems"(6) cur by simp
      from "1.IH"[OF True refl cur "1.prems"(1) p1 p2 p3 p4 p5] show ?thesis unfolding eq .
    qed
  qed
qed

text \<open>
  Claim C4.  Whether or not the dependencies form cycles, the order returned by
  \<^verbatim>\<open>topologicalSort\<close> holds every table name exactly once.  When the names of the tables
  are pairwise distinct (the name is the key of a table definition), the length of the
  order is the number of tables, and the levels returned by \<^verbatim>\<open>groupTablesByLevel\<close> are
  non-empty, no name occurs twice in them, together they hold exactly the table names, and
  their sizes add up to the number of tables.
\<close>

theorem order_and_levels_cover_tables:
  "distinct (order (topologicalSort (buildDependencyGraph tables))) \<and>
   set (order (topologicalSort (buildDependencyGraph tables))) = set (map tableName tables) \<and>
   (distinct (map tableName tables) \<longrightarrow>
      length (order (topologicalSort (buildDependencyGraph tables))) = length tables \<and>
      distinct (concat (groupTablesByLevel tables)) \<and>
      set (concat (groupTablesByLevel tables)) = set (map tableName tables) \<and>
      sum_list (map length (groupTablesByLevel tables)) = length tables \<and>
      [] \<notin> set (groupTablesByLevel tables))"
proof -
  let ?g = "buildDependencyGraph tables"
  have wf: "wf_graph ?g" by (rule wf_buildDependencyGraph)
  have d: "distinct (order (topologicalSort ?g))" by (rule topologicalSort_order_perm[OF wf])
  have s: "set (order (topologicalSort ?g)) = set (map tableName tables)"
    using topologicalSort_order_perm(2)[OF wf] buildDependencyGraph_key_set[of tables] by simp
  have rest: "length (order (topologicalSort ?g)) = length tables \<and>
      distinct (concat (groupTablesByLevel tables)) \<and>
      set (concat (groupTablesByLevel tables)) = set (map tableName tables) \<and>
      sum_list (map length (groupTablesByLevel tables)) = length tables \<and>
      [] \<notin> set (groupTablesByLevel tables)"
    if names: "distinct (map tableName tables)"
  proof -
    have l: "length (order (topologicalSort ?g)) = length tables"
      using distinct_card[OF d] distinct_card[OF names] s by simp
    from level_loop_partition[OF names, of "[]" "[]" ?g]
    have lv: "distinct (concat (groupTablesByLevel tables))"
      "set (concat (groupTablesByLevel tables)) = set (map tableName tables)"
      "[] \<notin> set (groupTablesByLevel tables)"
      by (simp_all add: groupTablesByLevel_def)
    have "sum_list (map length (groupTablesByLevel tables))
            = length (concat (groupTablesByLevel tables))"
      by (simp add: length_concat)
    also have "\<dots> = length tables"
      using distinct_card[OF lv(1)] distinct_card[OF names] lv(2) by simp
    finally show ?thesis using l lv by simp
  qed
  show ?thesis using d s rest by blast
qed

theorem order_and_levels_cover_tables_witness:
  "length (order (topologicalSort (buildDependencyGraph entangled_tables))) = 5 \<and>
   set (order (topologicalSort (buildDependencyGraph entangled_tables)))
     = {''X'', ''Y'', ''A'', ''B'', ''C''} \<and>
   sum_list (map length (groupTablesByLevel entangled_tables)) = 5 \<and>
   distinct (concat (groupTablesByLevel entangled_tables))"
proof -
  have n: "map tableName entangled_tables = [''X'', ''Y'', ''A'', ''B'', ''C'']"
    by (simp add: entangled_tables_def table_with_fks_def)
  have d: "distinct (map tableName entangled_tables)" unfolding n by simp
  have l: "length entangled_tables = 5" by (simp add: entangled_tables_def)
  from order_and_levels_cover_tables[of entangled_tables] d show ?thesis unfolding n l by auto
qed

lemma kahn_final_facts:
  assumes wf: "wf_graph g"
  shows "set (fst (kahn g)) \<subseteq> fst ` set g"
    and "t \<in> fst ` set g \<Longrightarrow>
         (t \<in> set (fst (kahn g))) = (set (deps_of g t) \<subseteq> set (fst (kahn g)))"
    and "a \<in> set (fst (kahn g)) \<Longrightarrow> b \<in> set (deps_of g a) \<Longrightarrow>
         index_of (fst (kahn g)) b < index_of (fst (kahn g)) a"
proof -
  let ?m = "snd (kahn g)" and ?o = "fst (kahn g)" and ?K = "fst ` set g"
  from kahn_final[OF wf]
  have inv: "distinct (map fst ?m) \<and> distinct ?o \<and> set ?o \<subseteq> ?K \<and>
     (\<forall>t \<in> ?K. degree_of ?m t = int (card (set (deps_of g t) - set ?o))) \<and>
     (\<forall>t \<in> ?K. (t \<in> set ?o) = (set (deps_of g t) \<subseteq> set ?o)) \<and>
     (\<forall>t. t \<notin> ?K \<longrightarrow> degree_of ?m t \<le> 0) \<and>
     (\<forall>a \<in> set ?o. \<forall>b \<in> set (deps_of g a). index_of ?o b < index_of ?o a)"
    unfolding kahn_inv_def append_Nil2 .
  show "set ?o \<subseteq> ?K"
    using inv by (rule conjunct2[THEN conjunct2, THEN conjunct1])
  show "(t \<in> set ?o) = (set (deps_of g t) \<subseteq> set ?o)" if "t \<in> ?K"
    using inv[THEN conjunct2, THEN conjunct2, THEN conjunct2, THEN conjunct2, THEN conjunct1] that
    by (rule bspec)
  show "index_of ?o b < index_of ?o a" if "a \<in> set ?o" "b \<in> set (deps_of g a)"
    using inv[THEN conjunct2, THEN conjunct2, THEN conjunct2, THEN conjunct2, THEN conjunct2,
              THEN conjunct2, rule_format, OF that] .
qed

lemma emitted_step:
  assumes wf: "wf_graph g" and x: "x \<in> set (fst (kahn g))" and e: "(x, y) \<in> depends_on g"
  shows "y \<in> set (fst (kahn g)) \<and> index_of (fst (kahn g)) y < index_of (fst (kahn g)) x"
proof -
  have y: "y \<in> set (deps_of g x)" using e by (simp add: depends_on_def)
  have lt: "index_of (fst (kahn g)) y < index_of (fst (kahn g)) x"
    by (rule kahn_final_facts(3)[OF wf x y])
  have "index_of (fst (kahn g)) x < length (fst (kahn g))" using x by (simp add: index_of_less)
  then have "y \<in> set (fst (kahn g))" using lt index_of_less[of "fst (kahn g)" y] by simp
  then show ?thesis using lt by simp
qed

lemma emitted_reach:
  assumes wf: "wf_graph g" and x: "x \<in> set (fst (kahn g))"
  shows "(x, y) \<in> (depends_on g)\<^sup>* \<Longrightarrow> y \<in> set (fst (kahn g))"
  by (induction rule: rtrancl_induct) (use x emitted_step[OF wf] in auto)

lemma emitted_descends:
  assumes wf: "wf_graph g"
  shows "(x, y) \<in> (depends_on g)\<^sup>+ \<Longrightarrow> x \<in> set (fst (kahn g)) \<Longrightarrow>
         y \<in> set (fst (kahn g)) \<and> index_of (fst (kahn g)) y < index_of (fst (kahn g)) x"
proof (induction rule: trancl_induct)
  case (base y)
  then show ?case using emitted_step[OF wf] by blast
next
  case (step y z)
  from step.IH[OF step.prems] have y: "y \<in> set (fst (kahn g))"
    and lt: "index_of (fst (kahn g)) y < index_of (fst (kahn g)) x" by simp_all
  from emitted_step[OF wf y step.hyps(2)] lt show ?case by simp
qed

lemma emitted_resolvable:
  assumes wf: "wf_graph g" and a: "a \<in> set (fst (kahn g))"
  shows "resolvable g a"
  unfolding resolvable_def
proof (intro allI impI conjI)
  fix x assume r: "(a, x) \<in> (depends_on g)\<^sup>*"
  have x: "x \<in> set (fst (kahn g))" by (rule emitted_reach[OF wf a r])
  show "(x, x) \<notin> (depends_on g)\<^sup>+"
  proof
    assume "(x, x) \<in> (depends_on g)\<^sup>+"
    from emitted_descends[OF wf this x] show False by simp
  qed
  fix y assume "(x, y) \<in> depends_on g"
  from emitted_step[OF wf x this] kahn_final_facts(1)[OF wf]
  show "y \<in> fst ` set g" by blast
qed

lemma resolvable_emitted:
  assumes wf: "wf_graph g" and a: "a \<in> fst ` set g" and res: "resolvable g a"
  shows "a \<in> set (fst (kahn g))"
proof (rule ccontr)
  let ?o = "fst (kahn g)" and ?K = "fst ` set g" and ?E = "depends_on g"
  assume na: "a \<notin> set ?o"
  define S where "S = {x \<in> ?K. x \<notin> set ?o \<and> (a, x) \<in> ?E\<^sup>*}"
  define E' where "E' = ?E \<inter> (S \<times> S)"
  have aS: "a \<in> S" using a na by (simp add: S_def)
  have finS: "finite S" by (simp add: S_def)
  have succ: "\<exists>y \<in> S. (x, y) \<in> ?E" if x: "x \<in> S" for x
  proof -
    have xK: "x \<in> ?K" and xo: "x \<notin> set ?o" and ax: "(a, x) \<in> ?E\<^sup>*"
      using x by (simp_all add: S_def)
    have "\<not> set (deps_of g x) \<subseteq> set ?o" using kahn_final_facts(2)[OF wf xK] xo by simp
    then obtain y where y: "y \<in> set (deps_of g x)" "y \<notin> set ?o" by blast
    have e: "(x, y) \<in> ?E" using y(1) by (simp add: depends_on_def)
    have "y \<in> ?K" using res ax e unfolding resolvable_def by blast
    moreover have "(a, y) \<in> ?E\<^sup>*" using ax e by (rule rtrancl_into_rtrancl)
    ultimately have "y \<in> S" using y(2) by (simp add: S_def)
    then show ?thesis using e by blast
  qed
  have finE: "finite E'" unfolding E'_def using finS by simp
  have sub: "E'\<^sup>+ \<subseteq> ?E\<^sup>+" unfolding E'_def by (intro trancl_mono_subset) simp
  have acyc: "acyclic E'"
    unfolding acyclic_def
  proof (intro allI notI)
    fix x assume c: "(x, x) \<in> E'\<^sup>+"
    then have "x \<in> Domain E'" by (metis Domain.DomainI tranclD)
    then have "x \<in> S" by (auto simp: E'_def)
    then have "(a, x) \<in> ?E\<^sup>*" by (simp add: S_def)
    moreover have "(x, x) \<in> ?E\<^sup>+" using c sub by blast
    ultimately show False using res unfolding resolvable_def by blast
  qed
  have "wf (E'\<inverse>)" by (rule finite_acyclic_wf_converse[OF finE acyc])
  from wfE_min[OF this aS] obtain z where z: "z \<in> S" "\<And>y. (y, z) \<in> E'\<inverse> \<Longrightarrow> y \<notin> S"
    by blast
  from succ[OF z(1)] obtain y where y: "y \<in> S" "(z, y) \<in> ?E" by blast
  then have "(y, z) \<in> E'\<inverse>" using z(1) by (simp add: E'_def)
  from z(2)[OF this] y(1) show False by simp
qed

text \<open>
  Claim C1, as amended.  In a graph built by \<^verbatim>\<open>buildDependencyGraph\<close>, a table \<open>a\<close> is left
  out of the residual nodes exactly when the dependency edges starting from \<open>a\<close> lead
  neither to a table on a cycle nor to a table that refers to a name missing from the
  graph.  For such a table and every edge from \<open>a\<close> to \<open>b\<close> (\<open>a\<close> depends on \<open>b\<close>), both are in the
  order and \<open>b\<close> comes first: the index of \<open>b\<close> is strictly less than the index of \<open>a\<close>.
\<close>

theorem dependency_comes_first:
  assumes b: "b \<in> set (deps_of (buildDependencyGraph tables) a)"
  shows "(a \<notin> set (remaining_nodes (buildDependencyGraph tables)))
           = resolvable (buildDependencyGraph tables) a \<and>
         (a \<notin> set (remaining_nodes (buildDependencyGraph tables)) \<longrightarrow>
            a \<in> set (order (topologicalSort (buildDependencyGraph tables))) \<and>
            b \<in> set (order (topologicalSort (buildDependencyGraph tables))) \<and>
            index_of (order (topologicalSort (buildDependencyGraph tables))) b
              < index_of (order (topologicalSort (buildDependencyGraph tables))) a)"
proof -
  let ?g = "buildDependencyGraph tables"
  let ?o = "fst (kahn ?g)"
  have wf: "wf_graph ?g" by (rule wf_buildDependencyGraph)
  have a: "a \<in> fst ` set ?g"
  proof (cases "map_of ?g a")
    case None
    then show ?thesis using b by (simp add: deps_of_def)
  next
    case (Some n)
    then show ?thesis by (rule node_has_key)
  qed
  have rem: "(a \<notin> set (remaining_nodes ?g)) = (a \<in> set ?o)"
    using remaining_nodes_set(1)[OF wf] a by auto
  have eq: "(a \<in> set ?o) = resolvable ?g a"
    using emitted_resolvable[OF wf] resolvable_emitted[OF wf a] by blast
  have pos: "a \<in> set (order (topologicalSort ?g)) \<and> b \<in> set (order (topologicalSort ?g)) \<and>
             index_of (order (topologicalSort ?g)) b < index_of (order (topologicalSort ?g)) a"
    if ao: "a \<in> set ?o"
  proof -
    have e: "(a, b) \<in> depends_on ?g" using b by (simp add: depends_on_def)
    from emitted_step[OF wf ao e] have bo: "b \<in> set ?o"
      and lt: "index_of ?o b < index_of ?o a" by simp_all
    show ?thesis
      unfolding topologicalSort_order_split using ao bo lt by (simp add: index_of_append_in)
  qed
  show ?thesis using rem eq pos by simp
qed

lemma blog_graph:
  "buildDependencyGraph blog_tables =
     [(''User'', \<lparr>table = ''User'', dependencies = [], dependents = [''Post'']\<rparr>),
      (''Post'', \<lparr>table = ''Post'', dependencies = [''User''], dependents = [''Comment'']\<rparr>),
      (''Comment'', \<lparr>table = ''Comment'', dependencies = [''Post''], dependents = []\<rparr>)]"
  by code_simp

lemma blog_kahn:
  "kahn (buildDependencyGraph blog_tables) =
     ([''User'', ''Post'', ''Comment''], [(''User'', 0), (''Post'', 0), (''Comment'', 0)])"
  unfolding blog_graph by code_simp

lemma blog_remaining: "remaining_nodes (buildDependencyGraph blog_tables) = []"
  by (simp add: remaining_nodes_def blog_kahn)

lemma blog_order:
  "order (topologicalSort (buildDependencyGraph blog_tables)) = [''User'', ''Post'', ''Comment'']"
  by (simp add: order_topologicalSort blog_remaining blog_kahn)

theorem dependency_comes_first_witness:
  "resolvable (buildDependencyGraph blog_tables) ''Post'' \<and>
   index_of (order (topologicalSort (buildDependencyGraph blog_tables))) ''User''
     < index_of (order (topologicalSort (buildDependencyGraph blog_tables))) ''Post''"
proof -
  have b: "''User'' \<in> set (deps_of (buildDependencyGraph blog_tables) ''Post'')"
    by (simp add: deps_of_def blog_graph)
  have r: "''Post'' \<notin> set (remaining_nodes (buildDependencyGraph blog_tables))"
    by (simp add: blog_remaining)
  from dependency_comes_first[OF b] r show ?thesis by blast
qed

text \<open>
  Claim C1 as stated fails: \<^verbatim>\<open>Post\<close> has a foreign key to \<^verbatim>\<open>User\<close>, there is no cycle and no
  residual node, and the order is \<^verbatim>\<open>User\<close>, \<^verbatim>\<open>Post\<close>, \<^verbatim>\<open>Comment\<close>: the index of \<^verbatim>\<open>Post\<close> is
  not less than the index of \<^verbatim>\<open>User\<close>.
\<close>

theorem dependent_after_dependency:
  "deps_of (buildDependencyGraph blog_tables) ''Post'' = [''User''] \<and>
   remaining_nodes (buildDependencyGraph blog_tables) = [] \<and>
   order (topologicalSort (buildDependencyGraph blog_tables)) = [''User'', ''Post'', ''Comment''] \<and>
   \<not> index_of (order (topologicalSort (buildDependencyGraph blog_tables))) ''Post''
       < index_of (order (topologicalSort (buildDependencyGraph blog_tables))) ''User''"
  unfolding blog_order blog_remaining by (simp add: deps_of_def blog_graph)

text \<open>
  Exchanging the two indices is not enough.  \<^verbatim>\<open>A\<close> depends on \<^verbatim>\<open>B\<close>, \<^verbatim>\<open>B\<close> on \<^verbatim>\<open>C\<close>, and
  \<^verbatim>\<open>C\<close> and \<^verbatim>\<open>D\<close> on each other: no cycle passes through \<^verbatim>\<open>A\<close> or \<^verbatim>\<open>B\<close>, all four are
  residual with one declared dependency each, and they are appended in table order, \<^verbatim>\<open>A\<close>
  before its dependency \<^verbatim>\<open>B\<close>.
\<close>

lemma chain_order:
  "order (topologicalSort (buildDependencyGraph chain_tables)) = [''A'', ''B'', ''C'', ''D'']"
  by code_simp

end
